theory Spec2Isabelle
  imports Main "HOL-Library.Word" "HOL-Library.Monad_Syntax"
begin

unbundle bit_operations_syntax

section \<open>Machine types\<close>

type_synonym u8 = "8 word"
type_synonym u32 = "32 word"
type_synonym u64 = "64 word"

text \<open>
  The digest state \<open>u32 digest[5]\<close> (\<open>SHA1::data\<close>); it is only ever indexed by the
  constants 0 to 4, so the five cells are the components of a tuple.
\<close>

type_synonym state5 = "u32 \<times> u32 \<times> u32 \<times> u32 \<times> u32"

section \<open>Helpers of the library headers\<close>

text \<open>
  Modelled from the spec: \<open>u32_rol\<close> of \<open>bits.hpp\<close>, which is not part of the
  sources at hand; the spec calls it \<open>rotate_left\<close> on a 32-bit word.
\<close>

definition u32_rol :: "u32 \<Rightarrow> nat \<Rightarrow> u32" where
  "u32_rol x n = word_rotl n x"

text \<open>
  Modelled from the spec: \<open>u32_select\<close> of \<open>bits.hpp\<close>, which is not part of the
  sources at hand. The spec gives the first-stage function, which the code writes
  \<open>u32_select(B, C, D)\<close>, as \<open>(B and C) or ((not B) and D)\<close>: a bitwise choice between
  the second and the third argument under the mask in the first.
\<close>

definition u32_select :: "u32 \<Rightarrow> u32 \<Rightarrow> u32 \<Rightarrow> u32" where
  "u32_select m a b = (m AND a) OR (NOT m AND b)"

text \<open>
  A \<open>const u8*\<close> is a buffer together with an offset into it. The offset is an
  \<open>int\<close>, since pointer arithmetic may step below the start of the buffer; reading
  outside the buffer has no result.

  Modelled from the spec: \<open>uload32be\<close> of \<open>endian.hpp\<close>, which is not part of the
  sources at hand; the spec calls it the big-endian load of a 32-bit word.
\<close>

definition uload32be :: "u8 list \<Rightarrow> int \<Rightarrow> u32 option" where
  "uload32be mem p =
     (if 0 \<le> p \<and> nat p + 4 \<le> length mem
      then Some (push_bit 24 (ucast (mem ! nat p)) OR
                 push_bit 16 (ucast (mem ! (nat p + 1))) OR
                 push_bit 8 (ucast (mem ! (nat p + 2))) OR
                 ucast (mem ! (nat p + 3)))
      else None)"

section \<open>The generic compression function\<close>

definition K1 :: u32 where "K1 = 0x5A827999"
definition K2 :: u32 where "K2 = 0x6ED9EBA1"
definition K3 :: u32 where "K3 = 0x8F1BBCDC"
definition K4 :: u32 where "K4 = 0xCA62C1D6"

text \<open>
  The five working variables of \<open>generic_sha1_transform\<close>. The round functions take
  \<open>B\<close> and \<open>E\<close> by reference and the 80 calls permute the variables they are given,
  so a call is modelled as a transformer of the register file that is told which
  variable stands in which position.
\<close>

datatype reg = A | B | C | D | E

type_synonym regs = "reg \<Rightarrow> u32"

definition F1 :: "reg \<Rightarrow> reg \<Rightarrow> reg \<Rightarrow> reg \<Rightarrow> reg \<Rightarrow> u32 \<Rightarrow> regs \<Rightarrow> regs" where
  "F1 a b c d e msg r =
     (let va = r a; vc = r c; vd = r d;
          r = r(e := r e + (u32_select (r b) vc vd + msg + K1 + u32_rol va 5));
          r = r(b := u32_rol (r b) 30)
      in r)"

definition F2 :: "reg \<Rightarrow> reg \<Rightarrow> reg \<Rightarrow> reg \<Rightarrow> reg \<Rightarrow> u32 \<Rightarrow> regs \<Rightarrow> regs" where
  "F2 a b c d e msg r =
     (let va = r a; vc = r c; vd = r d;
          r = r(e := r e + ((r b XOR vc XOR vd) + msg + K2 + u32_rol va 5));
          r = r(b := u32_rol (r b) 30)
      in r)"

definition F3 :: "reg \<Rightarrow> reg \<Rightarrow> reg \<Rightarrow> reg \<Rightarrow> reg \<Rightarrow> u32 \<Rightarrow> regs \<Rightarrow> regs" where
  "F3 a b c d e msg r =
     (let va = r a; vc = r c; vd = r d;
          r = r(e := r e + (u32_select (r b XOR vc) vd vc + msg + K3 + u32_rol va 5));
          r = r(b := u32_rol (r b) 30)
      in r)"

definition F4 :: "reg \<Rightarrow> reg \<Rightarrow> reg \<Rightarrow> reg \<Rightarrow> reg \<Rightarrow> u32 \<Rightarrow> regs \<Rightarrow> regs" where
  "F4 a b c d e msg r =
     (let va = r a; vc = r c; vd = r d;
          r = r(e := r e + ((r b XOR vc XOR vd) + msg + K4 + u32_rol va 5));
          r = r(b := u32_rol (r b) 30)
      in r)"

text \<open>
  The first loop of a block: \<open>for (int i = 0; i < 16; ++i) w[i] = uload32be(data + i * 4)\<close>.
\<close>

function load_loop :: "u8 list \<Rightarrow> int \<Rightarrow> nat \<Rightarrow> u32 list \<Rightarrow> u32 list option" where
  "load_loop mem p i w =
     (if i < 16
      then (case uload32be mem (p + int i * 4) of
              None \<Rightarrow> None
            | Some v \<Rightarrow> load_loop mem p (i + 1) (w[i := v]))
      else Some w)"
  by pat_completeness auto
termination
  by (relation "measure (\<lambda>(mem, p, i, w). 16 - i)") auto

text \<open>
  One assignment \<open>w[t] = u32_rol(w[a] ^ w[b] ^ w[c] ^ w[d], 1)\<close> of the second loop,
  and the eight of them that make its body.
\<close>

definition w_assign :: "nat \<Rightarrow> nat \<Rightarrow> nat \<Rightarrow> nat \<Rightarrow> nat \<Rightarrow> u32 list \<Rightarrow> u32 list" where
  "w_assign t a b c d w = w[t := u32_rol (w ! a XOR w ! b XOR w ! c XOR w ! d) 1]"

definition expand8 :: "nat \<Rightarrow> u32 list \<Rightarrow> u32 list" where
  "expand8 i w =
    (let
     w = w_assign (i + 0) (i - 3) (i - 8) (i - 14) (i - 16) w;
     w = w_assign (i + 1) (i - 2) (i - 7) (i - 13) (i - 15) w;
     w = w_assign (i + 2) (i - 1) (i - 6) (i - 12) (i - 14) w;
     w = w_assign (i + 3) (i + 0) (i - 5) (i - 11) (i - 13) w;
     w = w_assign (i + 4) (i + 1) (i - 4) (i - 10) (i - 12) w;
     w = w_assign (i + 5) (i + 2) (i - 3) (i - 9) (i - 11) w;
     w = w_assign (i + 6) (i + 3) (i - 2) (i - 8) (i - 10) w;
     w = w_assign (i + 7) (i + 4) (i - 1) (i - 7) (i - 9) w
     in w)"

function expand_loop :: "nat \<Rightarrow> u32 list \<Rightarrow> u32 list" where
  "expand_loop i w = (if i < 80 then expand_loop (i + 8) (expand8 i w) else w)"
  by pat_completeness auto
termination
  by (relation "measure (\<lambda>(i, w). 80 - i)") auto

declare load_loop.simps [simp del] expand_loop.simps [simp del]

text \<open>The 80 unrolled calls, in the order of the source.\<close>

definition rounds80 :: "u32 list \<Rightarrow> regs \<Rightarrow> regs" where
  "rounds80 w r =
    (let
     r = F1 A B C D E (w ! 0) r;
     r = F1 E A B C D (w ! 1) r;
     r = F1 D E A B C (w ! 2) r;
     r = F1 C D E A B (w ! 3) r;
     r = F1 B C D E A (w ! 4) r;
     r = F1 A B C D E (w ! 5) r;
     r = F1 E A B C D (w ! 6) r;
     r = F1 D E A B C (w ! 7) r;
     r = F1 C D E A B (w ! 8) r;
     r = F1 B C D E A (w ! 9) r;
     r = F1 A B C D E (w ! 10) r;
     r = F1 E A B C D (w ! 11) r;
     r = F1 D E A B C (w ! 12) r;
     r = F1 C D E A B (w ! 13) r;
     r = F1 B C D E A (w ! 14) r;
     r = F1 A B C D E (w ! 15) r;
     r = F1 E A B C D (w ! 16) r;
     r = F1 D E A B C (w ! 17) r;
     r = F1 C D E A B (w ! 18) r;
     r = F1 B C D E A (w ! 19) r;
     r = F2 A B C D E (w ! 20) r;
     r = F2 E A B C D (w ! 21) r;
     r = F2 D E A B C (w ! 22) r;
     r = F2 C D E A B (w ! 23) r;
     r = F2 B C D E A (w ! 24) r;
     r = F2 A B C D E (w ! 25) r;
     r = F2 E A B C D (w ! 26) r;
     r = F2 D E A B C (w ! 27) r;
     r = F2 C D E A B (w ! 28) r;
     r = F2 B C D E A (w ! 29) r;
     r = F2 A B C D E (w ! 30) r;
     r = F2 E A B C D (w ! 31) r;
     r = F2 D E A B C (w ! 32) r;
     r = F2 C D E A B (w ! 33) r;
     r = F2 B C D E A (w ! 34) r;
     r = F2 A B C D E (w ! 35) r;
     r = F2 E A B C D (w ! 36) r;
     r = F2 D E A B C (w ! 37) r;
     r = F2 C D E A B (w ! 38) r;
     r = F2 B C D E A (w ! 39) r;
     r = F3 A B C D E (w ! 40) r;
     r = F3 E A B C D (w ! 41) r;
     r = F3 D E A B C (w ! 42) r;
     r = F3 C D E A B (w ! 43) r;
     r = F3 B C D E A (w ! 44) r;
     r = F3 A B C D E (w ! 45) r;
     r = F3 E A B C D (w ! 46) r;
     r = F3 D E A B C (w ! 47) r;
     r = F3 C D E A B (w ! 48) r;
     r = F3 B C D E A (w ! 49) r;
     r = F3 A B C D E (w ! 50) r;
     r = F3 E A B C D (w ! 51) r;
     r = F3 D E A B C (w ! 52) r;
     r = F3 C D E A B (w ! 53) r;
     r = F3 B C D E A (w ! 54) r;
     r = F3 A B C D E (w ! 55) r;
     r = F3 E A B C D (w ! 56) r;
     r = F3 D E A B C (w ! 57) r;
     r = F3 C D E A B (w ! 58) r;
     r = F3 B C D E A (w ! 59) r;
     r = F4 A B C D E (w ! 60) r;
     r = F4 E A B C D (w ! 61) r;
     r = F4 D E A B C (w ! 62) r;
     r = F4 C D E A B (w ! 63) r;
     r = F4 B C D E A (w ! 64) r;
     r = F4 A B C D E (w ! 65) r;
     r = F4 E A B C D (w ! 66) r;
     r = F4 D E A B C (w ! 67) r;
     r = F4 C D E A B (w ! 68) r;
     r = F4 B C D E A (w ! 69) r;
     r = F4 A B C D E (w ! 70) r;
     r = F4 E A B C D (w ! 71) r;
     r = F4 D E A B C (w ! 72) r;
     r = F4 C D E A B (w ! 73) r;
     r = F4 B C D E A (w ! 74) r;
     r = F4 A B C D E (w ! 75) r;
     r = F4 E A B C D (w ! 76) r;
     r = F4 D E A B C (w ! 77) r;
     r = F4 C D E A B (w ! 78) r;
     r = F4 B C D E A (w ! 79) r
     in r)"

definition regs_of :: "state5 \<Rightarrow> regs" where
  "regs_of s = (case s of (a, b, c, d, e) \<Rightarrow>
     (\<lambda>x. case x of A \<Rightarrow> a | B \<Rightarrow> b | C \<Rightarrow> c | D \<Rightarrow> d | E \<Rightarrow> e))"

definition state_of :: "regs \<Rightarrow> state5" where
  "state_of r = (r A, r B, r C, r D, r E)"

text \<open>
  The schedule \<open>u32 w[80]\<close> of the block at \<open>data\<close>, by the two loops. The array
  is declared without a value; every cell is written before it is read, and the model
  starts it at zero.
\<close>

definition schedule :: "u8 list \<Rightarrow> int \<Rightarrow> u32 list option" where
  "schedule mem p =
     (case load_loop mem p 0 (replicate 80 0) of
        None \<Rightarrow> None
      | Some w \<Rightarrow> Some (expand_loop 16 w))"

text \<open>
  The body of the \<open>while\<close> loop for the block at \<open>data\<close>: the schedule, the rounds
  and the five updates \<open>A = (digest[0] += A)\<close>. The result is the new digest and the
  new working variables.
\<close>

definition sha1_block :: "u8 list \<Rightarrow> int \<Rightarrow> state5 \<Rightarrow> regs \<Rightarrow> (state5 \<times> regs) option" where
  "sha1_block mem p digest r =
     (case schedule mem p of
        None \<Rightarrow> None
      | Some w \<Rightarrow>
          (let r = rounds80 w r
           in case digest of (d0, d1, d2, d3, d4) \<Rightarrow>
             (let d0 = d0 + r A; r = r(A := d0);
                  d1 = d1 + r B; r = r(B := d1);
                  d2 = d2 + r C; r = r(C := d2);
                  d3 = d3 + r D; r = r(D := d3);
                  d4 = d4 + r E; r = r(E := d4)
              in Some ((d0, d1, d2, d3, d4), r))))"

text \<open>
  \<open>while (blocks-- > 0)\<close>: the counter is an \<open>int\<close>, the loop runs while it is
  positive, and \<open>data += 64\<close> moves to the next block.
\<close>

function transform_loop :: "int \<Rightarrow> u8 list \<Rightarrow> int \<Rightarrow> state5 \<Rightarrow> regs \<Rightarrow> state5 option" where
  "transform_loop blocks mem p digest r =
     (if blocks > 0
      then (case sha1_block mem p digest r of
              None \<Rightarrow> None
            | Some (digest', r') \<Rightarrow> transform_loop (blocks - 1) mem (p + 64) digest' r')
      else Some digest)"
  by pat_completeness auto
termination
  by (relation "measure (\<lambda>(blocks, mem, p, digest, r). nat blocks)") auto

declare transform_loop.simps [simp del]

definition generic_sha1_transform :: "state5 \<Rightarrow> u8 list \<Rightarrow> int \<Rightarrow> int \<Rightarrow> state5 option" where
  "generic_sha1_transform digest mem p blocks = transform_loop blocks mem p digest (regs_of digest)"


section \<open>The one-shot hash\<close>

text \<open>
  The two byte arrays \<open>sha1\<close> touches: the caller's buffer behind \<open>memory.address\<close>
  and the local \<open>u8 block[64]\<close>. A pointer is an array together with an offset, and
  every read and write outside the array has no result.
\<close>

datatype object = Input | Scratch

type_synonym heap = "object \<Rightarrow> u8 list"
type_synonym ptr = "object \<times> int"

definition in_bounds :: "heap \<Rightarrow> ptr \<Rightarrow> nat \<Rightarrow> bool" where
  "in_bounds h p n = (0 \<le> snd p \<and> nat (snd p) + n \<le> length (h (fst p)))"

definition write_bytes :: "heap \<Rightarrow> ptr \<Rightarrow> u8 list \<Rightarrow> heap option" where
  "write_bytes h p bs =
     (if in_bounds h p (length bs)
      then Some (h(fst p := take (nat (snd p)) (h (fst p)) @ bs @
                            drop (nat (snd p) + length bs) (h (fst p))))
      else None)"

definition read_bytes :: "heap \<Rightarrow> ptr \<Rightarrow> nat \<Rightarrow> u8 list option" where
  "read_bytes h p n =
     (if in_bounds h p n then Some (take n (drop (nat (snd p)) (h (fst p)))) else None)"

text \<open>\<open>std::memcpy(dst, src, n)\<close> and \<open>std::memset(dst, v, n)\<close>.\<close>

definition memcpy :: "heap \<Rightarrow> ptr \<Rightarrow> ptr \<Rightarrow> nat \<Rightarrow> heap option" where
  "memcpy h dst src n = do { bs \<leftarrow> read_bytes h src n; write_bytes h dst bs }"

definition memset :: "heap \<Rightarrow> ptr \<Rightarrow> u8 \<Rightarrow> nat \<Rightarrow> heap option" where
  "memset h dst v n = write_bytes h dst (replicate n v)"

text \<open>
  Modelled from the spec: \<open>ustore64be\<close> of \<open>endian.hpp\<close>, which is not part of the
  sources at hand; the spec calls it the big-endian store of a 64-bit word.
\<close>

definition be64_bytes :: "u64 \<Rightarrow> u8 list" where
  "be64_bytes v =
     [ucast (drop_bit 56 v), ucast (drop_bit 48 v), ucast (drop_bit 40 v),
      ucast (drop_bit 32 v), ucast (drop_bit 24 v), ucast (drop_bit 16 v),
      ucast (drop_bit 8 v), ucast v]"

definition ustore64be :: "heap \<Rightarrow> ptr \<Rightarrow> u64 \<Rightarrow> heap option" where
  "ustore64be h p v = write_bytes h p (be64_bytes v)"

text \<open>
  Modelled from the spec: \<open>byteswap\<close> of \<open>bits.hpp\<close>, which is not part of the
  sources at hand; the spec calls it the byte-swap of a 32-bit word.
\<close>

definition byteswap :: "u32 \<Rightarrow> u32" where
  "byteswap x =
     push_bit 24 (x AND 0xFF) OR push_bit 8 (x AND 0xFF00) OR
     (drop_bit 8 x AND 0xFF00) OR drop_bit 24 x"

text \<open>
  Lines 612 to 663 of \<open>sha1\<close>, up to the last call of the transform. The build is the
  generic one, so \<open>transform\<close> is \<open>generic_sha1_transform\<close>. \<open>memory.size\<close> is a
  \<open>size_t\<close> of 64 bits, \<open>size\<close> its truncation to \<open>u32\<close>, and \<open>block_count\<close> an
  \<open>int\<close> of 32 bits: \<open>block_count * 64\<close> is an \<open>int\<close> product, taken with the
  two's-complement wrap-around of the usual targets, and it is added to the pointer as
  a signed value and subtracted from \<open>size\<close> as an unsigned one.
\<close>

definition sha1_state :: "heap \<Rightarrow> (heap \<times> state5) option" where
  "sha1_state h = do {
     let hash = (0x67452301, 0xefcdab89, 0x98badcfe, 0x10325476, 0xc3d2e1f0 :: u32);
     let memory_size = (of_nat (length (h Input)) :: u64);
     let size = (ucast memory_size :: u32);
     let data = (Input, 0);
     let block_count = (size div 64 :: 32 word);
     hash \<leftarrow> generic_sha1_transform hash (h (fst data)) (snd data) (sint block_count);
     let data = (fst data, snd data + sint (block_count * 64));
     let size = size - block_count * 64;
     h \<leftarrow> memcpy h (Scratch, 0) data (unat size);
     h \<leftarrow> write_bytes h (Scratch, uint size) [0x80];
     let size = size + 1;
     (h, hash) \<leftarrow>
       (if size \<le> 56
        then do {
          h \<leftarrow> memset h (Scratch, uint size) 0 (unat (56 - size));
          Some (h, hash)
        }
        else do {
          h \<leftarrow> memset h (Scratch, uint size) 0 (unat (64 - size));
          hash \<leftarrow> generic_sha1_transform hash (h Scratch) 0 1;
          h \<leftarrow> memset h (Scratch, 0) 0 56;
          Some (h, hash)
        });
     h \<leftarrow> ustore64be h (Scratch, 56) (memory_size * 8);
     hash \<leftarrow> generic_sha1_transform hash (h Scratch) 0 1;
     Some (h, hash)
   }"

text \<open>
  Lines 665 to 673: under \<open>MANGO_LITTLE_ENDIAN\<close> (the flag \<open>le\<close>) the five words are
  byte-swapped, and the hash is returned.
\<close>

definition sha1_run :: "bool \<Rightarrow> heap \<Rightarrow> (heap \<times> state5) option" where
  "sha1_run le h = do {
     (h, hash) \<leftarrow> sha1_state h;
     let hash = (if le
                 then (case hash of (h0, h1, h2, h3, h4) \<Rightarrow>
                         (byteswap h0, byteswap h1, byteswap h2, byteswap h3, byteswap h4))
                 else hash);
     Some (h, hash)
   }"

text \<open>
  A call of \<open>sha1\<close> on a buffer: \<open>stack\<close> is what the 64 bytes of \<open>block\<close> hold
  when the function is entered.
\<close>

definition enter :: "u8 list \<Rightarrow> u8 list \<Rightarrow> heap" where
  "enter stack memory = (\<lambda>x. case x of Input \<Rightarrow> memory | Scratch \<Rightarrow> stack)"

definition sha1 :: "bool \<Rightarrow> u8 list \<Rightarrow> state5 option" where
  "sha1 le memory = map_option snd (sha1_run le (enter (replicate 64 0) memory))"

text \<open>
  The 20 bytes of the returned \<open>SHA1\<close> object: its five words as they lie in the
  memory of the host, least significant byte first on a little-endian host.
\<close>

definition host_bytes :: "bool \<Rightarrow> u32 \<Rightarrow> u8 list" where
  "host_bytes le x =
     (if le
      then [ucast x, ucast (drop_bit 8 x), ucast (drop_bit 16 x), ucast (drop_bit 24 x)]
      else [ucast (drop_bit 24 x), ucast (drop_bit 16 x), ucast (drop_bit 8 x), ucast x])"

definition digest_bytes :: "bool \<Rightarrow> state5 \<Rightarrow> u8 list" where
  "digest_bytes le hash =
     (case hash of (h0, h1, h2, h3, h4) \<Rightarrow>
        host_bytes le h0 @ host_bytes le h1 @ host_bytes le h2 @ host_bytes le h3 @
        host_bytes le h4)"


section \<open>The algorithm as the specification words it\<close>

text \<open>
  The stage functions and constants of the four groups of 20 rounds, and one round on the
  quintet \<open>(A, B, C, D, E)\<close>: \<open>E' = E + F + w[i] + K + rotate_left(A, 5)\<close>, after which
  the quintet is \<open>(E', A, rotate_left(B, 30), C, D)\<close>.
\<close>

definition f_ch :: "u32 \<Rightarrow> u32 \<Rightarrow> u32 \<Rightarrow> u32" where
  "f_ch b c d = (b AND c) OR (NOT b AND d)"

definition f_parity :: "u32 \<Rightarrow> u32 \<Rightarrow> u32 \<Rightarrow> u32" where
  "f_parity b c d = b XOR c XOR d"

definition f_maj :: "u32 \<Rightarrow> u32 \<Rightarrow> u32 \<Rightarrow> u32" where
  "f_maj b c d = (b AND c) OR (b AND d) OR (c AND d)"

definition round_f :: "nat \<Rightarrow> u32 \<Rightarrow> u32 \<Rightarrow> u32 \<Rightarrow> u32" where
  "round_f i = (if i < 20 then f_ch else if i < 40 then f_parity
                else if i < 60 then f_maj else f_parity)"

definition round_k :: "nat \<Rightarrow> u32" where
  "round_k i = (if i < 20 then 0x5A827999 else if i < 40 then 0x6ED9EBA1
                else if i < 60 then 0x8F1BBCDC else 0xCA62C1D6)"

definition rnd :: "(u32 \<Rightarrow> u32 \<Rightarrow> u32 \<Rightarrow> u32) \<Rightarrow> u32 \<Rightarrow> u32 \<Rightarrow> state5 \<Rightarrow> state5" where
  "rnd f k msg s =
     (case s of (a, b, c, d, e) \<Rightarrow>
        (e + f b c d + msg + k + u32_rol a 5, a, u32_rol b 30, c, d))"

definition round_spec :: "u32 list \<Rightarrow> state5 \<Rightarrow> nat \<Rightarrow> state5" where
  "round_spec w s i = rnd (round_f i) (round_k i) (w ! i) s"

definition rounds_spec :: "u32 list \<Rightarrow> state5 \<Rightarrow> state5" where
  "rounds_spec w s = foldl (round_spec w) s [0..<80]"

text \<open>
  The message schedule, one word at a time: \<open>w[i] = rotate_left(w[i-3] xor w[i-8] xor
  w[i-14] xor w[i-16], 1)\<close> for \<open>i\<close> from 16 to 79.
\<close>

definition w_step :: "u32 list \<Rightarrow> nat \<Rightarrow> u32 list" where
  "w_step w i = w[i := u32_rol (w ! (i - 3) XOR w ! (i - 8) XOR w ! (i - 14) XOR w ! (i - 16)) 1]"

definition schedule_spec :: "u32 list \<Rightarrow> u32 list" where
  "schedule_spec w = foldl w_step w [16..<80]"

definition sched_ok :: "u32 list \<Rightarrow> nat \<Rightarrow> bool" where
  "sched_ok W j =
     (W ! j = u32_rol (W ! (j - 3) XOR W ! (j - 8) XOR W ! (j - 14) XOR W ! (j - 16)) 1)"

text \<open>The big-endian word of four bytes, and the 16 words of the block at an offset.\<close>

definition be32 :: "u8 \<Rightarrow> u8 \<Rightarrow> u8 \<Rightarrow> u8 \<Rightarrow> u32" where
  "be32 b0 b1 b2 b3 =
     push_bit 24 (ucast b0) OR push_bit 16 (ucast b1) OR push_bit 8 (ucast b2) OR ucast b3"

definition word_at :: "u8 list \<Rightarrow> nat \<Rightarrow> u32" where
  "word_at mem k = be32 (mem ! k) (mem ! (k + 1)) (mem ! (k + 2)) (mem ! (k + 3))"

definition block_words :: "u8 list \<Rightarrow> nat \<Rightarrow> u32 list" where
  "block_words mem k = map (\<lambda>i. word_at mem (k + 4 * i)) [0..<16]"

text \<open>The 64 bytes at an offset lie inside the buffer.\<close>

definition has_block :: "u8 list \<Rightarrow> int \<Rightarrow> bool" where
  "has_block mem p = (0 \<le> p \<and> nat p + 64 \<le> length mem)"

text \<open>
  One block: the schedule of its 16 words, 80 rounds from the running state, and the
  feed-forward addition \<open>state[k] += register[k]\<close>.
\<close>

definition add5 :: "state5 \<Rightarrow> state5 \<Rightarrow> state5" where
  "add5 s t = (case s of (s0, s1, s2, s3, s4) \<Rightarrow> case t of (t0, t1, t2, t3, t4) \<Rightarrow>
     (s0 + t0, s1 + t1, s2 + t2, s3 + t3, s4 + t4))"

definition compress :: "state5 \<Rightarrow> u32 list \<Rightarrow> state5" where
  "compress s m = add5 s (rounds_spec (schedule_spec (m @ replicate 64 0)) s)"

text \<open>Blocks one at a time, each by a call of the transform with a count of 1.\<close>

fun one_at_a_time :: "nat \<Rightarrow> state5 \<Rightarrow> u8 list \<Rightarrow> int \<Rightarrow> state5 option" where
  "one_at_a_time 0 s mem p = Some s"
| "one_at_a_time (Suc n) s mem p =
     (case generic_sha1_transform s mem p 1 of
        None \<Rightarrow> None
      | Some s' \<Rightarrow> one_at_a_time n s' mem (p + 64))"


text \<open>
  The schedule as a function of the round number, and the rounds run over a sliding
  window of 16 schedule words, which is how the digests of concrete buffers are computed
  below.
\<close>

function Wf :: "u32 list \<Rightarrow> nat \<Rightarrow> u32" where
  "Wf m i =
     (if i < 16 then m ! i
      else u32_rol (Wf m (i - 3) XOR Wf m (i - 8) XOR Wf m (i - 14) XOR Wf m (i - 16)) 1)"
  by pat_completeness auto
termination
  by (relation "measure (\<lambda>(m, i). i)") auto

declare Wf.simps [simp del]

definition slide :: "u32 list \<Rightarrow> u32 list" where
  "slide win = tl win @ [u32_rol (win ! 13 XOR win ! 8 XOR win ! 2 XOR win ! 0) 1]"

fun stream :: "nat list \<Rightarrow> u32 list \<Rightarrow> state5 \<Rightarrow> state5" where
  "stream [] win s = s"
| "stream (i # is) win s = stream is (slide win) (rnd (round_f i) (round_k i) (hd win) s)"


text \<open>
  Padding and finalization as the specification words them: from the state after the
  complete blocks, the trailing bytes and the bit length, one final block when the
  trailing bytes and the \<open>0x80\<close> byte fit before offset 56, and two otherwise.
\<close>

definition IV :: state5 where
  "IV = (0x67452301, 0xEFCDAB89, 0x98BADCFE, 0x10325476, 0xC3D2E1F0)"

definition final_one :: "u8 list \<Rightarrow> u64 \<Rightarrow> u8 list" where
  "final_one tail bits = tail @ [0x80] @ replicate (56 - (length tail + 1)) 0 @ be64_bytes bits"

definition final_first :: "u8 list \<Rightarrow> u8 list" where
  "final_first tail = tail @ [0x80] @ replicate (64 - (length tail + 1)) 0"

definition final_second :: "u64 \<Rightarrow> u8 list" where
  "final_second bits = replicate 56 0 @ be64_bytes bits"

definition finalize :: "state5 \<Rightarrow> u8 list \<Rightarrow> u64 \<Rightarrow> (u8 list \<times> state5) option" where
  "finalize s tail bits =
     (if length tail + 1 \<le> 56
      then do {
        s \<leftarrow> generic_sha1_transform s (final_one tail bits) 0 1;
        Some (final_one tail bits, s)
      }
      else do {
        s \<leftarrow> generic_sha1_transform s (final_first tail) 0 1;
        s \<leftarrow> generic_sha1_transform s (final_second bits) 0 1;
        Some (final_second bits, s)
      })"

definition sha1_padded :: "u8 list \<Rightarrow> (u8 list \<times> state5) option" where
  "sha1_padded memory = do {
     s \<leftarrow> generic_sha1_transform IV memory 0 (int (length memory div 64));
     finalize s (drop (64 * (length memory div 64)) memory) (of_nat (length memory) * 8)
   }"

text \<open>The digest as the specification words it: the five state words, big-endian.\<close>

definition be32_bytes :: "u32 \<Rightarrow> u8 list" where
  "be32_bytes x = [ucast (drop_bit 24 x), ucast (drop_bit 16 x), ucast (drop_bit 8 x), ucast x]"

definition be_state_bytes :: "state5 \<Rightarrow> u8 list" where
  "be_state_bytes s =
     (case s of (h0, h1, h2, h3, h4) \<Rightarrow>
        be32_bytes h0 @ be32_bytes h1 @ be32_bytes h2 @ be32_bytes h3 @ be32_bytes h4)"

text \<open>
  What \<open>sha1\<close> computes for a buffer of any length, in the same terms: the count of
  blocks and the place and number of the trailing bytes are those of the 32-bit
  arithmetic of the code.
\<close>

definition read_tail :: "u8 list \<Rightarrow> int \<Rightarrow> nat \<Rightarrow> u8 list option" where
  "read_tail mem p n =
     (if 0 \<le> p \<and> nat p + n \<le> length mem then Some (take n (drop (nat p) mem)) else None)"

definition sha1_outline :: "u8 list \<Rightarrow> (u8 list \<times> state5) option" where
  "sha1_outline memory =
     (let sz = (ucast (of_nat (length memory) :: u64) :: u32);
          block_count = sz div 64
      in do {
        s \<leftarrow> generic_sha1_transform IV memory 0 (sint block_count);
        tail \<leftarrow> read_tail memory (sint (block_count * 64)) (unat (sz - block_count * 64));
        finalize s tail (of_nat (length memory) * 8)
      })"

text \<open>
  Helpers for computing with numerals: the identity, unfolded only at a numeral, the
  big-endian words of a byte list, and the bytes of an ASCII string.
\<close>

definition norm32 :: "u32 \<Rightarrow> u32" where
  "norm32 x = x"

fun be_words :: "u8 list \<Rightarrow> u32 list" where
  "be_words (b0 # b1 # b2 # b3 # rest) = be32 b0 b1 b2 b3 # be_words rest"
| "be_words _ = []"

definition ascii :: "string \<Rightarrow> u8 list" where
  "ascii s = map (\<lambda>c. of_nat (of_char c)) s"

text \<open>
  The digest as its consumers render it: two lowercase hexadecimal characters for each
  byte.
\<close>

definition hex_digit :: "nat \<Rightarrow> char" where
  "hex_digit n = ''0123456789abcdef'' ! n"

definition hex :: "u8 list \<Rightarrow> string" where
  "hex bs =
     concat (map (\<lambda>b. [hex_digit (unat (drop_bit 4 b)), hex_digit (unat (b AND 15))]) bs)"

section \<open>The 80 calls are 80 rounds on the quintet\<close>

lemma state_of_regs_of: "state_of (regs_of s) = s"
  by (cases s) (simp add: state_of_def regs_of_def)

lemma regs_of_state_of: "regs_of (state_of r) = r"
proof
  fix x show "regs_of (state_of r) x = r x"
    by (cases x) (simp_all add: state_of_def regs_of_def)
qed

lemma select_ch: "u32_select b c d = f_ch b c d"
  by (simp add: u32_select_def f_ch_def)

lemma select_maj: "u32_select (b XOR c) d c = f_maj b c d"
  unfolding u32_select_def f_maj_def
  by (rule bit_word_eqI) (auto simp add: bit_simps)


lemma F1_five:
  "F1 B C D E A m4 (F1 C D E A B m3 (F1 D E A B C m2 (F1 E A B C D m1 (F1 A B C D E m0 r)))) =
   regs_of (rnd f_ch K1 m4 (rnd f_ch K1 m3 (rnd f_ch K1 m2 (rnd f_ch K1 m1 (rnd f_ch K1 m0 (state_of r))))))"
proof
  fix x
  show "F1 B C D E A m4 (F1 C D E A B m3 (F1 D E A B C m2 (F1 E A B C D m1 (F1 A B C D E m0 r)))) x =
   regs_of (rnd f_ch K1 m4 (rnd f_ch K1 m3 (rnd f_ch K1 m2 (rnd f_ch K1 m1 (rnd f_ch K1 m0 (state_of r)))))) x"
    by (cases x) (simp_all add: F1_def Let_def regs_of_def state_of_def rnd_def select_ch add_ac)
qed

lemma F2_five:
  "F2 B C D E A m4 (F2 C D E A B m3 (F2 D E A B C m2 (F2 E A B C D m1 (F2 A B C D E m0 r)))) =
   regs_of (rnd f_parity K2 m4 (rnd f_parity K2 m3 (rnd f_parity K2 m2 (rnd f_parity K2 m1 (rnd f_parity K2 m0 (state_of r))))))"
proof
  fix x
  show "F2 B C D E A m4 (F2 C D E A B m3 (F2 D E A B C m2 (F2 E A B C D m1 (F2 A B C D E m0 r)))) x =
   regs_of (rnd f_parity K2 m4 (rnd f_parity K2 m3 (rnd f_parity K2 m2 (rnd f_parity K2 m1 (rnd f_parity K2 m0 (state_of r)))))) x"
    by (cases x) (simp_all add: F2_def Let_def regs_of_def state_of_def rnd_def f_parity_def add_ac)
qed

lemma F3_five:
  "F3 B C D E A m4 (F3 C D E A B m3 (F3 D E A B C m2 (F3 E A B C D m1 (F3 A B C D E m0 r)))) =
   regs_of (rnd f_maj K3 m4 (rnd f_maj K3 m3 (rnd f_maj K3 m2 (rnd f_maj K3 m1 (rnd f_maj K3 m0 (state_of r))))))"
proof
  fix x
  show "F3 B C D E A m4 (F3 C D E A B m3 (F3 D E A B C m2 (F3 E A B C D m1 (F3 A B C D E m0 r)))) x =
   regs_of (rnd f_maj K3 m4 (rnd f_maj K3 m3 (rnd f_maj K3 m2 (rnd f_maj K3 m1 (rnd f_maj K3 m0 (state_of r)))))) x"
    by (cases x) (simp_all add: F3_def Let_def regs_of_def state_of_def rnd_def select_maj add_ac)
qed

lemma F4_five:
  "F4 B C D E A m4 (F4 C D E A B m3 (F4 D E A B C m2 (F4 E A B C D m1 (F4 A B C D E m0 r)))) =
   regs_of (rnd f_parity K4 m4 (rnd f_parity K4 m3 (rnd f_parity K4 m2 (rnd f_parity K4 m1 (rnd f_parity K4 m0 (state_of r))))))"
proof
  fix x
  show "F4 B C D E A m4 (F4 C D E A B m3 (F4 D E A B C m2 (F4 E A B C D m1 (F4 A B C D E m0 r)))) x =
   regs_of (rnd f_parity K4 m4 (rnd f_parity K4 m3 (rnd f_parity K4 m2 (rnd f_parity K4 m1 (rnd f_parity K4 m0 (state_of r)))))) x"
    by (cases x) (simp_all add: F4_def Let_def regs_of_def state_of_def rnd_def f_parity_def add_ac)
qed


lemma foldl_upt_unroll:
  "foldl f s [0..<j] = (if 0 < j then foldl f (f s 0) [Suc 0..<j] else s)"
  "foldl f s [Suc 0..<j] = (if Suc 0 < j then foldl f (f s (Suc 0)) [2..<j] else s)"
  "foldl f s [numeral n..<j] =
     (if numeral n < j then foldl f (f s (numeral n)) [numeral n + 1..<j] else s)"
  by (simp_all add: upt_rec [of 0 j] upt_rec [of "Suc 0" j] upt_rec [of "numeral n" j]
      numeral_2_eq_2)

lemma rounds80_eq: "rounds80 w r = regs_of (rounds_spec w (state_of r))"
  unfolding rounds80_def Let_def
  apply (simp only: F1_five F2_five F3_five F4_five state_of_regs_of)
  apply (simp add: rounds_spec_def round_spec_def round_f_def round_k_def K1_def K2_def K3_def K4_def foldl_upt_unroll)
  done

section \<open>The message schedule\<close>

lemma upt_8: "[i..<i + 8] = [i, i + 1, i + 2, i + 3, i + 4, i + 5, i + 6, i + 7]"
  by (simp add: upt_rec [of i] upt_rec [of "Suc i"] upt_rec [of "Suc (Suc i)"]
      upt_rec [of "Suc (Suc (Suc i))"] upt_rec [of "Suc (Suc (Suc (Suc i)))"]
      upt_rec [of "Suc (Suc (Suc (Suc (Suc i))))"] upt_rec [of "Suc (Suc (Suc (Suc (Suc (Suc i)))))"]
      upt_rec [of "Suc (Suc (Suc (Suc (Suc (Suc (Suc i))))))"]
      upt_rec [of "Suc (Suc (Suc (Suc (Suc (Suc (Suc (Suc i)))))))"])

lemma w_assign_step_gen:
  "a = t - 3 \<Longrightarrow> b = t - 8 \<Longrightarrow> c = t - 14 \<Longrightarrow> d = t - 16 \<Longrightarrow>
   w_assign t a b c d w = w_step w t"
  by (simp add: w_assign_def w_step_def)

lemma w_assign_steps:
  "w_assign (i + 0) (i - 3) (i - 8) (i - 14) (i - 16) w = w_step w (i + 0)"
  "w_assign (i + 1) (i - 2) (i - 7) (i - 13) (i - 15) w = w_step w (i + 1)"
  "w_assign (i + 2) (i - 1) (i - 6) (i - 12) (i - 14) w = w_step w (i + 2)"
  "w_assign (i + 3) (i + 0) (i - 5) (i - 11) (i - 13) w = w_step w (i + 3)"
  "w_assign (i + 4) (i + 1) (i - 4) (i - 10) (i - 12) w = w_step w (i + 4)"
  "w_assign (i + 5) (i + 2) (i - 3) (i - 9) (i - 11) w = w_step w (i + 5)"
  "w_assign (i + 6) (i + 3) (i - 2) (i - 8) (i - 10) w = w_step w (i + 6)"
  "w_assign (i + 7) (i + 4) (i - 1) (i - 7) (i - 9) w = w_step w (i + 7)"
  by (rule w_assign_step_gen; arith)+

lemma expand8_steps: "expand8 i w = foldl w_step w [i..<i + 8]"
  unfolding expand8_def Let_def
  by (simp only: w_assign_steps) (simp only: upt_8 foldl.simps add_0_right)

lemma expand_loop_spec: "expand_loop 16 w = schedule_spec w"
proof -
  have "expand_loop 16 w =
        expand8 72 (expand8 64 (expand8 56 (expand8 48 (expand8 40 (expand8 32 (expand8 24 (expand8 16 w)))))))"
    by (simp add: expand_loop.simps)
  also have "\<dots> = foldl w_step w ([16..<16+8] @ [24..<24+8] @ [32..<32+8] @ [40..<40+8] @ [48..<48+8] @ [56..<56+8] @ [64..<64+8] @ [72..<72+8])"
    by (simp only: expand8_steps foldl_append) 
  also have "\<dots> = schedule_spec w"
    by (simp add: schedule_spec_def)
  finally show ?thesis .
qed

lemma length_w_step: "length (w_step w i) = length w"
  by (simp add: w_step_def)

lemma nth_w_step_other: "j \<noteq> i \<Longrightarrow> w_step w i ! j = w ! j"
  by (simp add: w_step_def)

lemma nth_w_step_same:
  "i < length w \<Longrightarrow>
   w_step w i ! i = u32_rol (w ! (i - 3) XOR w ! (i - 8) XOR w ! (i - 14) XOR w ! (i - 16)) 1"
  by (simp add: w_step_def)

lemma foldl_w_step_inv:
  assumes "16 \<le> a" "a + n \<le> length w"
  shows "length (foldl w_step w [a..<a + n]) = length w \<and>
         (\<forall>j. j < a \<or> a + n \<le> j \<longrightarrow> foldl w_step w [a..<a + n] ! j = w ! j) \<and>
         (\<forall>j. a \<le> j \<and> j < a + n \<longrightarrow> sched_ok (foldl w_step w [a..<a + n]) j)"
  using assms
proof (induction n)
  case 0
  then show ?case by auto
next
  case (Suc n)
  define W where "W = foldl w_step w [a..<a + n]"
  have ih: "length W = length w" "\<And>j. j < a \<or> a + n \<le> j \<Longrightarrow> W ! j = w ! j"
    "\<And>j. a \<le> j \<Longrightarrow> j < a + n \<Longrightarrow> sched_ok W j"
    using Suc by (auto simp add: W_def)
  have step: "foldl w_step w [a..<a + Suc n] = w_step W (a + n)"
    by (simp add: W_def)
  have in_range: "a + n < length W" using Suc.prems ih(1) by simp
  have len: "length (w_step W (a + n)) = length w"
    by (simp add: length_w_step ih(1))
  have outside: "w_step W (a + n) ! j = w ! j" if "j < a \<or> a + Suc n \<le> j" for j
  proof -
    from that have "j \<noteq> a + n" and "j < a \<or> a + n \<le> j" by arith+
    then show ?thesis using ih(2) [of j] by (simp add: nth_w_step_other)
  qed
  have inside: "sched_ok (w_step W (a + n)) j" if "a \<le> j" "j < a + Suc n" for j
  proof (cases "j = a + n")
    case True
    with \<open>16 \<le> a\<close> in_range show ?thesis
      by (simp add: sched_ok_def nth_w_step_same nth_w_step_other)
  next
    case False
    with that have "j < a + n" by simp
    with that(1) ih(3) [of j] False show ?thesis
      by (simp add: sched_ok_def nth_w_step_other)
  qed
  show ?case unfolding step using len outside inside by blast
qed

lemma schedule_spec_props:
  assumes "length w = 80"
  shows "length (schedule_spec w) = 80"
    and "j < 16 \<Longrightarrow> schedule_spec w ! j = w ! j"
    and "16 \<le> j \<Longrightarrow> j < 80 \<Longrightarrow> sched_ok (schedule_spec w) j"
  using foldl_w_step_inv [of 16 64 w] assms by (simp_all add: schedule_spec_def)

lemma uload32be_in:
  "0 \<le> p \<Longrightarrow> nat p + 64 \<le> length mem \<Longrightarrow> i < 16 \<Longrightarrow>
   uload32be mem (p + int i * 4) = Some (word_at mem (nat p + 4 * i))"
  by (simp add: uload32be_def word_at_def be32_def nat_add_distrib nat_mult_distrib mult.commute)

lemma load_loop_in:
  "0 \<le> p \<Longrightarrow> nat p + 64 \<le> length mem \<Longrightarrow>
   load_loop mem p i w =
     Some (foldl (\<lambda>w j. w[j := word_at mem (nat p + 4 * j)]) w [i..<16])"
proof (induction mem p i w rule: load_loop.induct)
  case (1 mem p i w)
  show ?case
  proof (cases "i < 16")
    case True
    then have "[i..<16] = i # [i + 1..<16]" by (simp add: upt_rec)
    with True 1 show ?thesis
      by (simp add: load_loop.simps [of mem p i w] uload32be_in)
  next
    case False
    then show ?thesis by (simp add: load_loop.simps [of mem p i w])
  qed
qed

lemma load_loop_short:
  "0 \<le> p \<Longrightarrow> \<not> nat p + 64 \<le> length mem \<Longrightarrow> i < 16 \<Longrightarrow> load_loop mem p i w = None"
proof (induction mem p i w rule: load_loop.induct)
  case (1 mem p i w)
  show ?case
  proof (cases "i = 15")
    case True
    with 1 have "uload32be mem (p + int i * 4) = None"
      by (simp add: uload32be_def nat_add_distrib)
    with True show ?thesis by (subst load_loop.simps) simp
  next
    case False
    with 1 have "i + 1 < 16" by simp
    with 1 show ?thesis
      by (simp add: load_loop.simps [of mem p i w] split: option.splits)
  qed
qed

lemma load_loop_below: "p < 0 \<Longrightarrow> load_loop mem p 0 w = None"
  by (simp add: load_loop.simps [of mem p 0 w] uload32be_def)

lemma load_loop_out: "\<not> has_block mem p \<Longrightarrow> load_loop mem p 0 w = None"
  using load_loop_below [of p mem w] load_loop_short [of p mem 0 w]
  by (cases "p < 0") (auto simp add: has_block_def)

section \<open>The transform, block by block\<close>

lemma foldl_update_prefix:
  "n \<le> length w \<Longrightarrow> foldl (\<lambda>w j. w[j := f j]) w [0..<n] = map f [0..<n] @ drop n w"
proof (induction n)
  case 0
  then show ?case by simp
next
  case (Suc n)
  then have "drop n w = w ! n # drop (Suc n) w"
    by (simp add: Cons_nth_drop_Suc)
  with Suc show ?case by (simp add: list_update_append)
qed

lemma load_loop_words:
  "has_block mem p \<Longrightarrow>
   load_loop mem p 0 (replicate 80 0) = Some (block_words mem (nat p) @ replicate 64 0)"
  by (simp add: has_block_def load_loop_in foldl_update_prefix block_words_def)

lemma schedule_eq:
  "schedule mem p =
     (if has_block mem p
      then Some (schedule_spec (block_words mem (nat p) @ replicate 64 0))
      else None)"
  by (simp add: schedule_def load_loop_words load_loop_out expand_loop_spec)

lemma regs_upd_all: "r(A := a, B := b, C := c, D := d, E := e) = regs_of (a, b, c, d, e)"
proof
  fix x show "(r(A := a, B := b, C := c, D := d, E := e)) x = regs_of (a, b, c, d, e) x"
    by (cases x) (simp_all add: regs_of_def)
qed

lemma sha1_block_eq:
  "sha1_block mem p s (regs_of s) =
     (if has_block mem p
      then Some (compress s (block_words mem (nat p)), regs_of (compress s (block_words mem (nat p))))
      else None)"
proof (cases "has_block mem p")
  case True
  obtain s0 s1 s2 s3 s4 where s: "s = (s0, s1, s2, s3, s4)" by (cases s) 
  obtain t0 t1 t2 t3 t4 where t: "rounds_spec (schedule_spec (block_words mem (nat p) @ replicate 64 0)) s = (t0, t1, t2, t3, t4)"
    using prod_cases5 by blast 
  show ?thesis using True
    apply (simp add: sha1_block_def schedule_eq rounds80_eq state_of_regs_of compress_def t)
    apply (simp add: s add5_def Let_def regs_of_def[of "(t0, t1, t2, t3, t4)"])
    apply (simp add: regs_upd_all)
    done
next
  case False
  then show ?thesis by (simp add: sha1_block_def schedule_eq)
qed

lemma transform_step:
  "generic_sha1_transform s mem p blocks =
     (if blocks > 0
      then (if has_block mem p
            then generic_sha1_transform (compress s (block_words mem (nat p))) mem (p + 64) (blocks - 1)
            else None)
      else Some s)"
  unfolding generic_sha1_transform_def
  by (subst transform_loop.simps) (simp add: sha1_block_eq)

lemma transform_nonpos: "blocks \<le> 0 \<Longrightarrow> generic_sha1_transform s mem p blocks = Some s"
  by (subst transform_step) simp

lemma transform_one:
  "generic_sha1_transform s mem p 1 =
     (if has_block mem p then Some (compress s (block_words mem (nat p))) else None)"
  by (subst transform_step) (simp add: transform_nonpos)

lemma transform_Suc:
  "generic_sha1_transform s mem p (1 + int k) =
     (case generic_sha1_transform s mem p 1 of
        None \<Rightarrow> None
      | Some s' \<Rightarrow> generic_sha1_transform s' mem (p + 64) (int k))"
  by (subst transform_step) (simp add: transform_one)

lemma transform_split_nat:
  "generic_sha1_transform s mem p (int k + int n) =
     (case generic_sha1_transform s mem p (int k) of
        None \<Rightarrow> None
      | Some s' \<Rightarrow> generic_sha1_transform s' mem (p + 64 * int k) (int n))"
proof (induction k arbitrary: s p)
  case 0
  then show ?case by (simp add: transform_nonpos)
next
  case (Suc k)
  have "int (Suc k) + int n = 1 + int (k + n)" by simp
  moreover have "int (Suc k) = 1 + int k" by simp
  ultimately show ?case
    using Suc.IH by (simp only: transform_Suc) (simp add: algebra_simps split: option.splits)
qed

lemma transform_one_at_a_time:
  "generic_sha1_transform s mem p (int k) = one_at_a_time k s mem p"
proof (induction k arbitrary: s p)
  case 0
  then show ?case by (simp add: transform_nonpos)
next
  case (Suc k)
  have "int (Suc k) = 1 + int k" by simp
  then show ?case using Suc.IH by (simp only: transform_Suc one_at_a_time.simps)
qed

lemma transform_in_bounds:
  "0 \<le> p \<Longrightarrow> nat p + 64 * k \<le> length mem \<Longrightarrow>
   generic_sha1_transform s mem p (int k) \<noteq> None"
proof (induction k arbitrary: s p)
  case 0
  then show ?case by (simp add: transform_nonpos)
next
  case (Suc k)
  have e: "int (Suc k) = 1 + int k" by simp
  from Suc.prems have hb: "has_block mem p" by (simp add: has_block_def)
  from Suc.prems have "0 \<le> p + 64" "nat (p + 64) + 64 * k \<le> length mem"
    by (simp_all add: nat_add_distrib)
  from Suc.IH [OF this] hb show ?case
    by (simp only: e transform_Suc) (simp add: transform_one)
qed

lemma block_words_append:
  "k + 64 \<le> length mem \<Longrightarrow> block_words (mem @ rest) k = block_words mem k"
  by (simp add: block_words_def word_at_def nth_append)

lemma has_block_append: "has_block mem p \<Longrightarrow> has_block (mem @ rest) p"
  by (simp add: has_block_def)

lemma transform_append:
  "0 \<le> p \<Longrightarrow> nat p + 64 * k \<le> length mem \<Longrightarrow>
   generic_sha1_transform s (mem @ rest) p (int k) = generic_sha1_transform s mem p (int k)"
proof (induction k arbitrary: s p)
  case 0
  then show ?case by (simp add: transform_nonpos)
next
  case (Suc k)
  have e: "int (Suc k) = 1 + int k" by simp
  from Suc.prems have hb: "has_block mem p" by (simp add: has_block_def)
  from Suc.prems have bw: "block_words (mem @ rest) (nat p) = block_words mem (nat p)"
    by (simp add: block_words_append)
  from Suc.prems have "0 \<le> p + 64" "nat (p + 64) + 64 * k \<le> length mem"
    by (simp_all add: nat_add_distrib)
  from Suc.IH [OF this] hb bw show ?case
    by (simp only: e transform_Suc) (simp add: transform_one has_block_append)
qed

section \<open>Rounds over a sliding window\<close>

lemma Wf_low: "i < 16 \<Longrightarrow> Wf m i = m ! i"
  by (subst Wf.simps) simp

lemma Wf_high:
  "16 \<le> i \<Longrightarrow>
   Wf m i = u32_rol (Wf m (i - 3) XOR Wf m (i - 8) XOR Wf m (i - 14) XOR Wf m (i - 16)) 1"
  by (subst Wf.simps) simp

lemma schedule_spec_Wf:
  assumes "length m = 16" "j < 80"
  shows "schedule_spec (m @ replicate 64 0) ! j = Wf m j"
  using assms(2)
proof (induction j rule: less_induct)
  case (less j)
  have len: "length (m @ replicate 64 (0::u32)) = 80" using assms(1) by simp
  show ?case
  proof (cases "j < 16")
    case True
    then show ?thesis
      using schedule_spec_props(2) [OF len, of j] assms(1) by (simp add: Wf_low nth_append)
  next
    case False
    then have j: "16 \<le> j" by simp
    have "sched_ok (schedule_spec (m @ replicate 64 0)) j"
      using schedule_spec_props(3) [OF len j less.prems] .
    moreover have "schedule_spec (m @ replicate 64 0) ! (j - k) = Wf m (j - k)" if "0 < k" for k
      using less.IH [of "j - k"] less.prems j that by simp
    ultimately show ?thesis
      by (simp add: sched_ok_def Wf_high [OF j])
  qed
qed

lemma rounds_spec_Wf:
  assumes "length m = 16"
  shows "rounds_spec (schedule_spec (m @ replicate 64 0)) s =
         foldl (\<lambda>s i. rnd (round_f i) (round_k i) (Wf m i) s) s [0..<80]"
proof -
  have "foldl (round_spec (schedule_spec (m @ replicate 64 0))) s is =
        foldl (\<lambda>s i. rnd (round_f i) (round_k i) (Wf m i) s) s is" if "set is \<subseteq> {..<80}" for "is"
    using that
    by (induction "is" arbitrary: s) (simp_all add: round_spec_def schedule_spec_Wf [OF assms])
  from this [of "[0..<80]"] show ?thesis
    unfolding rounds_spec_def by (simp only: set_upt atLeast0LessThan subset_refl)
qed

lemma slide_window:
  "slide (map (Wf m) [i..<i + 16]) = map (Wf m) [Suc i..<Suc (i + 16)]"
proof -
  have a: "[i..<i + 16] = i # [Suc i..<i + 16]" by (simp add: upt_rec)
  have b: "[Suc i..<Suc (i + 16)] = [Suc i..<i + 16] @ [i + 16]"
    by (rule upt_Suc_append) simp
  have c: "Wf m (i + 16) = u32_rol (Wf m (i + 13) XOR Wf m (i + 8) XOR Wf m (i + 2) XOR Wf m i) 1"
    by (subst Wf.simps) (simp add: add.commute)
  have d: "(Wf m i # map (Wf m) [Suc i..<i + 16]) ! 13 = Wf m (i + 13)"
    "(Wf m i # map (Wf m) [Suc i..<i + 16]) ! 8 = Wf m (i + 8)"
    "(Wf m i # map (Wf m) [Suc i..<i + 16]) ! 2 = Wf m (i + 2)"
    "(Wf m i # map (Wf m) [Suc i..<i + 16]) ! 0 = Wf m i"
    by (simp_all add: nth_Cons' add.commute)
  show ?thesis
    unfolding slide_def a b by (simp only: list.map d c map_append list.sel)
qed

lemma stream_window:
  "stream [i..<i + n] (map (Wf m) [i..<i + 16]) s =
   foldl (\<lambda>s i. rnd (round_f i) (round_k i) (Wf m i) s) s [i..<i + n]"
proof (induction n arbitrary: i s)
  case 0
  then show ?case by simp
next
  case (Suc n)
  have a: "[i..<i + Suc n] = i # [Suc i..<Suc i + n]" by (simp add: upt_rec)
  have h: "hd (map (Wf m) [i..<i + 16]) = Wf m i" by (simp add: upt_rec)
  have w: "slide (map (Wf m) [i..<i + 16]) = map (Wf m) [Suc i..<Suc i + 16]"
    using slide_window [of m i] by simp
  show ?case unfolding a by (simp only: stream.simps foldl.simps h w Suc.IH)
qed

lemma map_Wf_16: "length m = 16 \<Longrightarrow> map (Wf m) [0..<16] = m"
  by (rule nth_equalityI) (simp_all add: Wf_low)

lemma compress_stream:
  "length m = 16 \<Longrightarrow> compress s m = add5 s (stream [0..<80] m s)"
  using stream_window [of 0 80 m s] by (simp add: compress_def rounds_spec_Wf map_Wf_16)

lemma rot_index_hi: "n \<le> k \<Longrightarrow> k < 32 \<Longrightarrow> (k + 32 - n) mod 32 = k - (n::nat)"
  by (simp add: mod_if) 

lemma rot_index_lo: "\<not> n \<le> k \<Longrightarrow> (k + 32 - n) mod 32 = 32 + k - (n::nat)"
  by (simp add: mod_if) arith

lemma rol_shift:
  assumes "0 < n" "n < 32"
  shows "u32_rol x n = push_bit n x OR drop_bit (32 - n) x"
  unfolding u32_rol_def
proof (rule bit_word_eqI)
  fix k assume k: "k < LENGTH(32)"
  show "bit (word_rotl n x) k = bit (push_bit n x OR drop_bit (32 - n) x) k"
  proof (cases "n \<le> k")
    case True
    have "\<not> bit x (32 - n + k)" using True assms
      using bit_imp_le_length [of x "32 - n + k"] by auto
    then show ?thesis using True k assms
      by (simp add: bit_word_rotl_iff bit_or_iff bit_push_bit_iff bit_drop_bit_eq rot_index_hi)
  next
    case False
    then show ?thesis using k assms 
      by (simp add: bit_word_rotl_iff bit_or_iff bit_push_bit_iff bit_drop_bit_eq rot_index_lo)
         (simp add: add.commute)
  qed
qed

lemma norm32_numeral: "norm32 (numeral n) = numeral n AND 0xFFFFFFFF"
proof -
  have m: "(0xFFFFFFFF :: u32) = - 1" by simp
  show ?thesis unfolding norm32_def m by (rule and.right_neutral [symmetric])
qed

lemma norm32_0: "norm32 0 = 0" and norm32_1: "norm32 1 = 1"
  by (simp_all add: norm32_def)

lemma drop_bit_of_nat32:
  assumes "n < 4294967296"
  shows "drop_bit k (of_nat n :: u32) = of_nat (drop_bit k n)"
proof (rule bit_word_eqI)
  fix i assume "i < LENGTH(32)"
  from assms have "take_bit 32 n = n" by (simp add: take_bit_nat_eq_self)
  then have "bit n (k + i) \<Longrightarrow> k + i < 32"
    by (metis bit_take_bit_iff)
  then show "bit (drop_bit k (of_nat n :: u32)) i = bit (of_nat (drop_bit k n) :: u32) i"
    using \<open>i < LENGTH(32)\<close> by (auto simp add: bit_simps)
qed

lemma rol_numeral:
  "0 < k \<Longrightarrow> k < 32 \<Longrightarrow> (numeral n :: nat) < 4294967296 \<Longrightarrow>
   u32_rol (numeral n) k =
     norm32 (push_bit k (numeral n)) OR of_nat (drop_bit (32 - k) (numeral n :: nat))"
  using drop_bit_of_nat32 [of "numeral n" "32 - k"] by (simp add: rol_shift norm32_def)

lemma rol_0: "u32_rol 0 k = 0"
  by (simp add: u32_rol_def)

lemma rol_1: "0 < k \<Longrightarrow> k < 32 \<Longrightarrow> u32_rol 1 k = push_bit k 1"
  by (simp add: rol_shift)

lemma rnd_eval:
  "rnd f k msg (a, b, c, d, e) =
     (norm32 (e + f b c d + msg + k + u32_rol a 5), a, u32_rol b 30, c, d)"
  by (simp add: rnd_def norm32_def)

lemma slide_16:
  "slide [w0, w1, w2, w3, w4, w5, w6, w7, w8, w9, w10, w11, w12, w13, w14, w15] =
     [w1, w2, w3, w4, w5, w6, w7, w8, w9, w10, w11, w12, w13, w14, w15,
      u32_rol (w13 XOR w8 XOR w2 XOR w0) 1]"
  by (simp add: slide_def)

lemma f_ch_eval: "f_ch b c d = d XOR (b AND (c XOR d))"
  unfolding f_ch_def by (rule bit_word_eqI) (auto simp add: bit_simps)

lemma add5_eval:
  "add5 (s0, s1, s2, s3, s4) (t0, t1, t2, t3, t4) =
     (norm32 (s0 + t0), norm32 (s1 + t1), norm32 (s2 + t2), norm32 (s3 + t3), norm32 (s4 + t4))"
  by (simp add: add5_def norm32_def)

lemma stream_upt_unroll:
  "stream [0..<j] win s =
     (if 0 < j then stream [Suc 0..<j] (slide win) (rnd (round_f 0) (round_k 0) (hd win) s) else s)"
  "stream [Suc 0..<j] win s =
     (if Suc 0 < j
      then stream [2..<j] (slide win) (rnd (round_f (Suc 0)) (round_k (Suc 0)) (hd win) s) else s)"
  "stream [numeral n..<j] win s =
     (if numeral n < j
      then stream [numeral n + 1..<j] (slide win)
             (rnd (round_f (numeral n)) (round_k (numeral n)) (hd win) s)
      else s)"
  by (simp_all add: upt_rec [of 0 j] upt_rec [of "Suc 0" j] upt_rec [of "numeral n" j]
      numeral_2_eq_2)

lemmas eval_rules = stream_upt_unroll slide_16 rnd_eval round_f_def round_k_def rol_numeral rol_0 rol_1
  f_ch_eval f_parity_def f_maj_def add5_eval norm32_numeral norm32_0 norm32_1


section \<open>Padding and finalization\<close>

lemma unat_of_nat32: "n < 4294967296 \<Longrightarrow> unat (of_nat n :: u32) = n"
  by (simp add: unat_of_nat)

lemma uint_of_nat32: "n < 4294967296 \<Longrightarrow> uint (of_nat n :: u32) = int n"
  using unat_of_nat32 [of n] by (simp add: uint_nat)

lemma sint_of_nat32: "n < 2147483648 \<Longrightarrow> sint (of_nat n :: u32) = int n"
proof -
  assume n: "n < 2147483648"
  then have "uint (of_nat n :: u32) = int n" by (simp add: uint_of_nat32)
  moreover have "signed_take_bit 31 (int n) = int n"
    using n by (intro signed_take_bit_int_eq_self) simp_all
  ultimately show ?thesis by (simp add: sint_uint)
qed

lemma ucast_size: "L < 4294967296 \<Longrightarrow> (ucast (of_nat L :: u64) :: u32) = of_nat L"
proof -
  assume "L < 4294967296"
  then have "unat (ucast (of_nat L :: u64) :: u32) = unat (of_nat L :: u32)"
    by (simp add: unsigned_ucast_eq unat_of_nat take_bit_nat_eq_self)
  then show ?thesis by (simp only: word_unat_eq_iff)
qed

lemma div64_of_nat: "n < 4294967296 \<Longrightarrow> (of_nat n :: u32) div 64 = of_nat (n div 64)"
proof -
  assume n: "n < 4294967296"
  then have "n div 64 < 4294967296" by simp
  with n have "unat ((of_nat n :: u32) div 64) = unat (of_nat (n div 64) :: u32)"
    by (simp add: unat_div unat_of_nat32)
  then show ?thesis by (simp only: word_unat_eq_iff)
qed

lemma sub_of_nat: "b \<le> a \<Longrightarrow> (of_nat a :: u32) - of_nat b = of_nat (a - b)"
  by simp

lemma le_of_nat32:
  "a < 4294967296 \<Longrightarrow> b < 4294967296 \<Longrightarrow> ((of_nat a :: u32) \<le> of_nat b) = (a \<le> b)"
  by (simp add: word_le_nat_alt unat_of_nat32)

lemma size_facts:
  fixes L :: nat
  assumes "L < 2147483648"
  defines "sz \<equiv> (ucast (of_nat L :: u64) :: u32)"
  shows "sint (sz div 64) = int (L div 64)"
    and "sint (sz div 64 * 64) = int (64 * (L div 64))"
    and "sz - sz div 64 * 64 = of_nat (L mod 64)"
proof -
  have sz: "sz = of_nat L" unfolding sz_def using assms(1) by (simp add: ucast_size)
  have d: "sz div 64 = of_nat (L div 64)" unfolding sz using assms(1) by (simp add: div64_of_nat)
  have m: "sz div 64 * 64 = of_nat (64 * (L div 64))" unfolding d by simp
  have "L div 64 < 2147483648" "64 * (L div 64) < 2147483648" using assms(1) by simp_all
  then show "sint (sz div 64) = int (L div 64)" "sint (sz div 64 * 64) = int (64 * (L div 64))"
    unfolding m unfolding d by (simp_all only: sint_of_nat32)
  have "64 * (L div 64) \<le> L" by simp
  then have "(of_nat L :: u32) - of_nat (64 * (L div 64)) = of_nat (L - 64 * (L div 64))"
    by (rule sub_of_nat)
  moreover have "L - 64 * (L div 64) = L mod 64" by (simp add: minus_mult_div_eq_mod)
  moreover have "(of_nat L :: u32) div 64 * 64 = of_nat (64 * (L div 64))"
    using m unfolding sz .
  ultimately show "sz - sz div 64 * 64 = of_nat (L mod 64)" unfolding sz by (simp only:)
qed

lemma tail_facts:
  fixes r :: nat
  assumes "r < 64"
  shows "unat (of_nat r :: u32) = r"
    and "uint (of_nat r :: u32) = int r"
    and "((of_nat r :: u32) + 1 \<le> 56) = (r + 1 \<le> 56)"
    and "uint ((of_nat r :: u32) + 1) = int (r + 1)"
    and "r + 1 \<le> 56 \<Longrightarrow> unat (56 - ((of_nat r :: u32) + 1)) = 56 - (r + 1)"
    and "unat (64 - ((of_nat r :: u32) + 1)) = 64 - (r + 1)"
proof -
  have r: "r < 4294967296" "r + 1 < 4294967296" using assms by simp_all
  have s: "(of_nat r :: u32) + 1 = of_nat (r + 1)" by simp
  show "unat (of_nat r :: u32) = r" "uint (of_nat r :: u32) = int r"
    using r by (simp_all only: unat_of_nat32 uint_of_nat32)
  have "((of_nat (r + 1) :: u32) \<le> of_nat 56) = (r + 1 \<le> 56)"
    using r by (intro le_of_nat32) simp_all
  then show "((of_nat r :: u32) + 1 \<le> 56) = (r + 1 \<le> 56)" unfolding s by simp
  show "uint ((of_nat r :: u32) + 1) = int (r + 1)"
    unfolding s using r by (simp only: uint_of_nat32)
  show "unat (56 - ((of_nat r :: u32) + 1)) = 56 - (r + 1)" if "r + 1 \<le> 56"
  proof -
    have "(of_nat 56 :: u32) - of_nat (r + 1) = of_nat (56 - (r + 1))"
      using that by (rule sub_of_nat)
    then have "56 - ((of_nat r :: u32) + 1) = of_nat (56 - (r + 1))" unfolding s by simp
    then show ?thesis by (simp add: unat_of_nat32)
  qed
  have "(of_nat 64 :: u32) - of_nat (r + 1) = of_nat (64 - (r + 1))"
    using assms by (intro sub_of_nat) simp
  then have "64 - ((of_nat r :: u32) + 1) = of_nat (64 - (r + 1))" unfolding s by simp
  then show "unat (64 - ((of_nat r :: u32) + 1)) = 64 - (r + 1)"
    by (simp add: unat_of_nat32)
qed

lemma enter_simps [simp]: "enter blk mem Input = mem" "enter blk mem Scratch = blk"
  by (simp_all add: enter_def)

lemma enter_upd: "(enter blk mem)(Scratch := blk') = enter blk' mem"
proof
  fix x show "((enter blk mem)(Scratch := blk')) x = enter blk' mem x"
    by (cases x) (simp_all add: enter_def)
qed

lemma write_enter:
  "k + length bs \<le> length blk \<Longrightarrow>
   write_bytes (enter blk mem) (Scratch, int k) bs =
     Some (enter (take k blk @ bs @ drop (k + length bs) blk) mem)"
  by (simp add: write_bytes_def in_bounds_def enter_upd)

lemma read_enter:
  "k + n \<le> length mem \<Longrightarrow>
   read_bytes (enter blk mem) (Input, int k) n = Some (take n (drop k mem))"
  by (simp add: read_bytes_def in_bounds_def)

lemma memcpy_enter:
  "k + n \<le> length mem \<Longrightarrow> n \<le> length blk \<Longrightarrow>
   memcpy (enter blk mem) (Scratch, 0) (Input, int k) n =
     Some (enter (take n (drop k mem) @ drop n blk) mem)"
  using write_enter [of 0 "take n (drop k mem)" blk mem]
  by (simp add: memcpy_def read_enter min_absorb2)

lemma memset_enter:
  "k + n \<le> length blk \<Longrightarrow>
   memset (enter blk mem) (Scratch, int k) v n =
     Some (enter (take k blk @ replicate n v @ drop (k + n) blk) mem)"
  using write_enter [of k "replicate n v" blk mem] by (simp add: memset_def)

lemma length_be64 [simp]: "length (be64_bytes v) = 8"
  by (simp add: be64_bytes_def)

lemma ustore_enter:
  "k + 8 \<le> length blk \<Longrightarrow>
   ustore64be (enter blk mem) (Scratch, int k) v =
     Some (enter (take k blk @ be64_bytes v @ drop (k + 8) blk) mem)"
  using write_enter [of k "be64_bytes v" blk mem] by (simp add: ustore64be_def)

text \<open>The scratch block after the copy, the 0x80 byte and the fill.\<close>

lemma pad_copy:
  assumes "length tail = r" "r < 64" "length stack = 64"
  shows "take r (tail @ drop r stack) @ [0x80] @ drop (r + 1) (tail @ drop r stack) =
         tail @ [0x80] @ drop (r + 1) stack"
  using assms by simp

lemma pad_one:
  assumes "length tail = r" "r + 1 \<le> 56" "length stack = 64"
  shows "take 56 (take (r + 1) (tail @ [0x80] @ drop (r + 1) stack) @ replicate (56 - (r + 1)) 0 @
                  drop (r + 1 + (56 - (r + 1))) (tail @ [0x80] @ drop (r + 1) stack)) @
           be64_bytes bits @
           drop (56 + 8) (take (r + 1) (tail @ [0x80] @ drop (r + 1) stack) @ replicate (56 - (r + 1)) 0 @
                  drop (r + 1 + (56 - (r + 1))) (tail @ [0x80] @ drop (r + 1) stack)) =
         final_one tail bits"
proof -
  from assms(2) have e: "56 - r = Suc (55 - r)" by arith
  show ?thesis using assms by (simp add: final_one_def e)
qed

lemma pad_first:
  assumes "length tail = r" "r < 64" "length stack = 64"
  shows "take (r + 1) (tail @ [0x80] @ drop (r + 1) stack) @ replicate (64 - (r + 1)) 0 @
           drop (r + 1 + (64 - (r + 1))) (tail @ [0x80] @ drop (r + 1) stack) =
         final_first tail"
  using assms by (simp add: final_first_def)

lemma pad_second:
  assumes "length tail = r" "r < 64"
  shows "take 56 (take 0 (final_first tail) @ replicate 56 0 @ drop (0 + 56) (final_first tail)) @
           be64_bytes bits @
           drop (56 + 8) (take 0 (final_first tail) @ replicate 56 0 @ drop (0 + 56) (final_first tail)) =
         final_second bits"
  using assms by (simp add: final_first_def final_second_def)

lemma length_final [simp]:
  "length tail + 1 \<le> 56 \<Longrightarrow> length (final_one tail bits) = 64"
  "length tail < 64 \<Longrightarrow> length (final_first tail) = 64"
  "length (final_second bits) = 64"
  by (simp_all add: final_one_def final_first_def final_second_def)

lemma memcpy_enter_tail:
  "n \<le> length blk \<Longrightarrow>
   memcpy (enter blk mem) (Scratch, 0) (Input, p) n =
     map_option (\<lambda>tail. enter (tail @ drop n blk) mem) (read_tail mem p n)"
proof (cases "0 \<le> p \<and> nat p + n \<le> length mem")
  case True
  assume n: "n \<le> length blk"
  from True have "min (length mem - nat p) n = n" by arith
  with True n write_enter [of 0 "take n (drop (nat p) mem)" blk mem] show ?thesis
    by (simp add: memcpy_def read_bytes_def in_bounds_def read_tail_def)
next
  case False
  then show ?thesis
    by (auto simp add: memcpy_def read_bytes_def in_bounds_def read_tail_def)
qed

lemma length_read_tail: "read_tail mem p n = Some tail \<Longrightarrow> length tail = n"
  by (auto simp add: read_tail_def split: if_splits)

lemma word_rest:
  fixes sz :: u32
  shows "sz - sz div 64 * 64 = of_nat (unat sz mod 64)"
proof -
  have "sz div 64 * 64 + sz mod 64 = sz" by (rule word_mod_div_equality)
  then have "sz - sz div 64 * 64 = sz mod 64" by (simp add: algebra_simps)
  moreover have "unat (sz mod 64) = unat sz mod 64" by (simp add: unat_mod)
  ultimately show ?thesis by (metis of_nat_unat ucast_id)
qed

lemma sha1_state_outline:
  assumes "length stack = 64"
  shows "sha1_state (enter stack memory) =
         map_option (\<lambda>(blk, s). (enter blk memory, s)) (sha1_outline memory)"
proof -
  define sz where "sz = (ucast (of_nat (length memory) :: u64) :: u32)"
  define r where "r = unat sz mod 64"
  define p where "p = sint (sz div 64 * 64)"
  define bits where "bits = (of_nat (length memory) * 8 :: u64)"
  have r: "r < 64" by (simp add: r_def)
  note tf = tail_facts [OF r]
  have rest: "ucast (of_nat (length memory) :: u64) - ucast (of_nat (length memory) :: u64) div 64 * 64
              = (of_nat r :: u32)"
    unfolding r_def sz_def by (rule word_rest)
  have c1: "memcpy (enter stack memory) (Scratch, 0) (Input, 0 + p) r =
            map_option (\<lambda>tail. enter (tail @ drop r stack) memory) (read_tail memory p r)"
    using memcpy_enter_tail [of r stack memory p] r assms by simp
  have rhs: "sha1_outline memory =
             Option.bind (generic_sha1_transform IV memory 0 (sint (sz div 64)))
               (\<lambda>s. Option.bind (read_tail memory p r) (\<lambda>tail. finalize s tail bits))"
    unfolding sha1_outline_def Let_def
    apply (simp only: rest)
    apply (simp only: tf sz_def [symmetric] bits_def [symmetric])
    apply (simp only: p_def [symmetric])
    done
  have lhs: "sha1_state (enter stack memory) =
     Option.bind (generic_sha1_transform IV memory 0 (sint (sz div 64))) (\<lambda>hash.
       Option.bind (map_option (\<lambda>tail. enter (tail @ drop r stack) memory) (read_tail memory p r)) (\<lambda>h.
         Option.bind (write_bytes h (Scratch, int r) [0x80]) (\<lambda>h.
           Option.bind
             (if r + 1 \<le> 56
              then Option.bind (memset h (Scratch, int (r + 1)) 0 (unat (56 - ((of_nat r :: u32) + 1))))
                     (\<lambda>h. Some (h, hash))
              else Option.bind (memset h (Scratch, int (r + 1)) 0 (64 - (r + 1)))
                     (\<lambda>h. Option.bind (generic_sha1_transform hash (h Scratch) 0 1)
                        (\<lambda>hash. Option.bind (memset h (Scratch, 0) 0 56) (\<lambda>h. Some (h, hash)))))
             (\<lambda>(h, hash). Option.bind (ustore64be h (Scratch, 56) bits)
                (\<lambda>h. Option.bind (generic_sha1_transform hash (h Scratch) 0 1)
                   (\<lambda>hash. Some (h, hash)))))))"
    apply (simp only: sha1_state_def Let_def enter_simps fst_conv snd_conv)
    apply (simp only: rest)
    apply (simp only: tf IV_def [symmetric] bits_def [symmetric] sz_def [symmetric])
    apply (simp only: p_def [symmetric] c1)
    done
  show ?thesis
  proof (cases "generic_sha1_transform IV memory 0 (sint (sz div 64))")
    case None
    show ?thesis by (simp only: lhs rhs None bind.simps option.map)
  next
    case (Some s1)
    show ?thesis
    proof (cases "read_tail memory p r")
      case None
      show ?thesis by (simp only: lhs rhs Some None bind.simps option.map)
    next
      case tl: (Some tail)
      have lt: "length tail = r" using tl by (rule length_read_tail)
      let ?B2 = "tail @ [0x80] @ drop (r + 1) stack"
      have "write_bytes (enter (tail @ drop r stack) memory) (Scratch, int r) [0x80] =
            Some (enter (take r (tail @ drop r stack) @ [0x80] @
                         drop (r + 1) (tail @ drop r stack)) memory)"
        using write_enter [of r "[0x80]" "tail @ drop r stack" memory] r lt assms by simp
      then have c2: "write_bytes (enter (tail @ drop r stack) memory) (Scratch, int r) [0x80] =
                Some (enter ?B2 memory)"
        unfolding pad_copy [OF lt r assms] .
      show ?thesis
      proof (cases "r + 1 \<le> 56")
        case True
        let ?B3 = "take (r + 1) ?B2 @ replicate (56 - (r + 1)) 0 @ drop (r + 1 + (56 - (r + 1))) ?B2"
        have c3: "memset (enter ?B2 memory) (Scratch, int (r + 1)) 0 (56 - (r + 1)) =
                  Some (enter ?B3 memory)"
          using True lt assms by (intro memset_enter) simp
        have "ustore64be (enter ?B3 memory) (Scratch, 56) bits =
              Some (enter (take 56 ?B3 @ be64_bytes bits @ drop (56 + 8) ?B3) memory)"
          using ustore_enter [of 56 ?B3 memory bits] True lt assms by simp
        then have c4: "ustore64be (enter ?B3 memory) (Scratch, 56) bits =
                       Some (enter (final_one tail bits) memory)"
          unfolding pad_one [OF lt True assms] .
        have fin: "finalize s1 tail bits =
                   Option.bind (generic_sha1_transform s1 (final_one tail bits) 0 1)
                     (\<lambda>s. Some (final_one tail bits, s))"
          using True by (simp add: finalize_def lt)
        show ?thesis
          apply (simp only: lhs rhs Some tl option.map True tf(5) [OF True] fin c2 c3 c4 if_True
              bind.simps prod.case enter_simps)
          apply (cases "generic_sha1_transform s1 (final_one tail bits) 0 1")
           apply simp_all
          done
      next
        case False
        let ?B5 = "replicate 56 0 @ drop 56 (final_first tail)"
        have "memset (enter ?B2 memory) (Scratch, int (r + 1)) 0 (64 - (r + 1)) =
              Some (enter (take (r + 1) ?B2 @ replicate (64 - (r + 1)) 0 @
                           drop (r + 1 + (64 - (r + 1))) ?B2) memory)"
          using r lt assms by (intro memset_enter) simp
        then have c3: "memset (enter ?B2 memory) (Scratch, int (r + 1)) 0 (64 - (r + 1)) =
                       Some (enter (final_first tail) memory)"
          unfolding pad_first [OF lt r assms] .
        have c5: "memset (enter (final_first tail) memory) (Scratch, 0) 0 56 =
                  Some (enter ?B5 memory)"
          using memset_enter [of 0 56 "final_first tail" memory 0] r lt by simp
        have c6: "ustore64be (enter ?B5 memory) (Scratch, 56) bits =
                  Some (enter (final_second bits) memory)"
          using ustore_enter [of 56 ?B5 memory bits] r lt
          by (simp add: final_second_def final_first_def)
        have fin: "finalize s1 tail bits =
                   Option.bind (generic_sha1_transform s1 (final_first tail) 0 1)
                     (\<lambda>s. Option.bind (generic_sha1_transform s (final_second bits) 0 1)
                        (\<lambda>s. Some (final_second bits, s)))"
          using False by (simp add: finalize_def lt)
        show ?thesis
        proof (cases "generic_sha1_transform s1 (final_first tail) 0 1")
          case None
          show ?thesis
            by (simp only: lhs rhs Some tl option.map False fin c2 c3 None if_False
                bind.simps prod.case enter_simps)
        next
          case s2: (Some s2)
          show ?thesis
            apply (simp only: lhs rhs Some tl option.map False fin c2 c3 s2 c5 c6 if_False
                bind.simps prod.case enter_simps)
            apply (cases "generic_sha1_transform s2 (final_second bits) 0 1")
             apply simp_all
            done
        qed
      qed
    qed
  qed
qed

lemma sha1_outline_padded:
  assumes "length memory < 2147483648"
  shows "sha1_outline memory = sha1_padded memory"
proof -
  note sf = size_facts [OF assms]
  have r: "length memory mod 64 < 64" by simp
  have split: "64 * (length memory div 64) + length memory mod 64 = length memory" by simp
  have "length (drop (64 * (length memory div 64)) memory) = length memory mod 64"
    by (simp add: minus_mult_div_eq_mod)
  then have "take (length memory mod 64) (drop (64 * (length memory div 64)) memory) =
             drop (64 * (length memory div 64)) memory"
    by simp
  moreover have "nat (int (64 * (length memory div 64))) = 64 * (length memory div 64)"
    by (rule nat_int)
  ultimately have "read_tail memory (int (64 * (length memory div 64))) (length memory mod 64) =
        Some (drop (64 * (length memory div 64)) memory)"
    using split unfolding read_tail_def by (simp only: of_nat_0_le_iff simp_thms if_True order_refl)
  then show ?thesis
    unfolding sha1_outline_def sha1_padded_def Let_def
    by (simp only: sf tail_facts [OF r] bind.simps)
qed

lemma sha1_state_padded:
  assumes "length memory < 2147483648" "length stack = 64"
  shows "sha1_state (enter stack memory) =
         map_option (\<lambda>(blk, s). (enter blk memory, s)) (sha1_padded memory)"
  using sha1_state_outline [OF assms(2)] sha1_outline_padded [OF assms(1)] by simp

section \<open>Digest encoding, totality and the input buffer\<close>

lemma bit_FF: "bit (0xFF :: u32) n = (n < 8)"
proof -
  have e: "(0xFF :: u32) = mask 8" by (simp add: mask_eq_exp_minus_1)
  show ?thesis unfolding e bit_mask_iff by auto
qed

lemma bit_FF00: "bit (0xFF00 :: u32) n = (8 \<le> n \<and> n < 16)"
proof -
  have e: "(0xFF00 :: u32) = push_bit 8 (mask 8)"
    by (simp add: mask_eq_exp_minus_1 push_bit_eq_mult)
  show ?thesis unfolding e bit_push_bit_iff bit_mask_iff by auto
qed

lemma bit_byteswap:
  "bit (byteswap x) n =
     (if n < 8 then bit x (n + 24)
      else if n < 16 then bit x (n + 8)
      else if n < 24 then bit x (n - 8)
      else n < 32 \<and> bit x (n - 24))"
  unfolding byteswap_def bit_or_iff bit_and_iff bit_push_bit_iff bit_drop_bit_eq bit_FF bit_FF00
  by (auto simp add: add.commute dest: bit_imp_le_length)

lemma host_bytes_byteswap: "host_bytes True (byteswap x) = host_bytes False x"
  unfolding host_bytes_def
  apply simp
  apply (intro conjI; rule bit_word_eqI)
     apply (auto simp add: bit_ucast_iff bit_drop_bit_eq bit_byteswap add.commute)
  done

lemma digest_bytes_be:
  "digest_bytes False s = be_state_bytes s"
  "digest_bytes True
     (case s of (h0, h1, h2, h3, h4) \<Rightarrow>
        (byteswap h0, byteswap h1, byteswap h2, byteswap h3, byteswap h4)) = be_state_bytes s"
proof -
  obtain h0 h1 h2 h3 h4 where s: "s = (h0, h1, h2, h3, h4)" by (cases s)
  have b: "host_bytes False x = be32_bytes x" for x
    by (simp add: host_bytes_def be32_bytes_def)
  show "digest_bytes False s = be_state_bytes s"
    by (simp add: s digest_bytes_def be_state_bytes_def b)
  show "digest_bytes True
     (case s of (h0, h1, h2, h3, h4) \<Rightarrow>
        (byteswap h0, byteswap h1, byteswap h2, byteswap h3, byteswap h4)) = be_state_bytes s"
    by (simp add: s digest_bytes_def be_state_bytes_def host_bytes_byteswap b)
qed

lemma length_be_state_bytes: "length (be_state_bytes s) = 20"
  by (cases s) (simp add: be_state_bytes_def be32_bytes_def)

lemma sha1_run_state:
  "sha1_run le h =
     map_option (\<lambda>(h', s). (h', if le
        then (case s of (h0, h1, h2, h3, h4) \<Rightarrow>
                (byteswap h0, byteswap h1, byteswap h2, byteswap h3, byteswap h4))
        else s)) (sha1_state h)"
  by (cases "sha1_state h") (auto simp add: sha1_run_def Let_def)

lemma finalize_eq:
  "length tail < 64 \<Longrightarrow>
   finalize s tail bits =
     Some (if length tail + 1 \<le> 56
           then (final_one tail bits, compress s (block_words (final_one tail bits) 0))
           else (final_second bits,
                 compress (compress s (block_words (final_first tail) 0))
                   (block_words (final_second bits) 0)))"
  by (simp add: finalize_def transform_one has_block_def)

lemma finalize_total: "length tail < 64 \<Longrightarrow> finalize s tail bits \<noteq> None"
  by (simp add: finalize_eq)

lemma sha1_padded_total: "sha1_padded memory \<noteq> None"
proof -
  have "nat 0 + 64 * (length memory div 64) \<le> length memory" by simp
  then have "generic_sha1_transform IV memory 0 (int (length memory div 64)) \<noteq> None"
    by (intro transform_in_bounds) simp_all
  then obtain s1 where s1: "generic_sha1_transform IV memory 0 (int (length memory div 64)) = Some s1"
    using not_None_eq by blast
  have "length (drop (64 * (length memory div 64)) memory) < 64"
    by (simp add: minus_mult_div_eq_mod)
  from finalize_total [OF this] show ?thesis
    by (simp add: sha1_padded_def s1)
qed

lemma write_bytes_Input:
  "write_bytes h (Scratch, k) bs = Some h' \<Longrightarrow> h' Input = h Input"
  by (auto simp add: write_bytes_def split: if_splits)

lemma memcpy_Input: "memcpy h (Scratch, k) src n = Some h' \<Longrightarrow> h' Input = h Input"
  by (auto simp add: memcpy_def split: bind_splits dest: write_bytes_Input)

lemma memset_Input: "memset h (Scratch, k) v n = Some h' \<Longrightarrow> h' Input = h Input"
  by (auto simp add: memset_def dest: write_bytes_Input)

lemma ustore_Input: "ustore64be h (Scratch, k) v = Some h' \<Longrightarrow> h' Input = h Input"
  by (auto simp add: ustore64be_def dest: write_bytes_Input)

lemma sha1_state_Input: "sha1_state h = Some (h', s) \<Longrightarrow> h' Input = h Input"
  unfolding sha1_state_def Let_def
  by (auto split: bind_splits if_splits
      dest!: memcpy_Input memset_Input ustore_Input write_bytes_Input)

lemma sha1_run_Input: "sha1_run le h = Some (h', d) \<Longrightarrow> h' Input = h Input"
  by (auto simp add: sha1_run_state dest: sha1_state_Input)

section \<open>Digests of concrete buffers\<close>

lemma be_words_map:
  "length blk = 4 * n \<Longrightarrow> be_words blk = map (\<lambda>i. word_at blk (4 * i)) [0..<n]"
proof (induction n arbitrary: blk)
  case 0
  then show ?case by simp
next
  case (Suc n)
  from Suc.prems obtain b0 t0 where 0: "blk = b0 # t0" by (cases blk) auto
  with Suc.prems obtain b1 t1 where 1: "t0 = b1 # t1" by (cases t0) auto
  with 0 Suc.prems obtain b2 t2 where 2: "t1 = b2 # t2" by (cases t1) auto
  with 0 1 Suc.prems obtain b3 rest where 3: "t2 = b3 # rest" by (cases t2) auto
  from 0 1 2 3 have blk: "blk = b0 # b1 # b2 # b3 # rest" by simp
  with Suc.prems have "length rest = 4 * n" by simp
  from Suc.IH [OF this] show ?case
    by (simp add: blk map_upt_Suc word_at_def add.commute del: upt_Suc)
qed

lemma block_words_eval: "length blk = 64 \<Longrightarrow> block_words blk 0 = be_words blk"
  using be_words_map [of blk 16] by (simp add: block_words_def)

lemma length_block_words: "length (block_words blk k) = 16"
  by (simp add: block_words_def)

lemma replicate_unroll: "replicate (numeral n) x = x # replicate (pred_numeral n) x"
  by (simp add: numeral_eq_Suc)

lemma transform_block_eval:
  assumes "length blk = 64"
  shows "generic_sha1_transform s blk 0 1 = Some (add5 s (stream [0..<80] (be_words blk) s))"
proof -
  have "length (be_words blk) = 16"
    using length_block_words [of blk 0] by (simp only: block_words_eval [OF assms])
  then show ?thesis using assms
    by (simp add: transform_one has_block_def block_words_eval compress_stream)
qed


lemmas padded_rules = sha1_padded_def transform_nonpos finalize_def final_one_def final_first_def
  final_second_def be64_bytes_def replicate_unroll transform_block_eval

lemma sha1_padded_empty:
  "map_option snd (sha1_padded []) =
     Some (0xda39a3ee, 0x5e6b4b0d, 0x3255bfef, 0x95601890, 0xafd80709)"
  apply (simp add: padded_rules)
  apply (simp add: IV_def be32_def eval_rules)
  done

lemma sha1_padded_abc:
  "map_option snd (sha1_padded (ascii ''abc'')) =
     Some (0xa9993e36, 0x4706816a, 0xba3e2571, 0x7850c26c, 0x9cd0d89d)"
  apply (simp add: padded_rules ascii_def)
  apply (simp add: IV_def be32_def eval_rules)
  done

lemma sha1_padded_nist56:
  "map_option snd (sha1_padded (ascii ''abcdbcdecdefdefgefghfghighijhijkijkljklmklmnlmnomnopnopq'')) =
     Some (0x84983e44, 0x1c3bd26e, 0xbaae4aa1, 0xf95129e5, 0xe54670f1)"
  apply (simp add: padded_rules ascii_def)
  apply (simp add: IV_def be32_def eval_rules)
  done

lemma digest_bytes_swapped:
  "digest_bytes True (byteswap a, byteswap b, byteswap c, byteswap d, byteswap e) =
   be_state_bytes (a, b, c, d, e)"
  using digest_bytes_be(2) [of "(a, b, c, d, e)"] by simp

lemma sha1_digest_padded:
  assumes "length memory < 2147483648"
  shows "map_option (digest_bytes le) (sha1 le memory) =
         map_option be_state_bytes (map_option snd (sha1_padded memory))"
proof -
  have len: "length (replicate 64 (0::u8)) = 64" by simp
  obtain blk s where p: "sha1_padded memory = Some (blk, s)"
    using sha1_padded_total [of memory] by (cases "sha1_padded memory") auto
  show ?thesis
    by (cases le)
      (simp_all add: sha1_def sha1_run_state sha1_state_padded [OF assms len] p digest_bytes_be)
qed

lemma hex_digest:
  "map_option (digest_bytes le) r = Some bs \<Longrightarrow>
   map_option (\<lambda>d. hex (digest_bytes le d)) r = Some (hex bs)"
  by (cases r) auto

section \<open>The claims about the generic transform\<close>

text \<open>
  C2: in every block the generic backend processes, each of the 80 rounds computes
  \<open>E' = E + F + w[i] + K + rotate_left(A, 5)\<close> modulo \<open>2^32\<close> and turns the quintet
  into \<open>(E', A, rotate_left(B, 30), C, D)\<close>, with the stage function and constant of
  the round's group of 20; the \<open>u32_select\<close> expressions of \<open>F1\<close> and \<open>F3\<close> are the
  choice and the majority function.
\<close>

theorem generic_rounds_canonical:
  "state_of (rounds80 w r) =
     foldl (\<lambda>s i. rnd (round_f i) (round_k i) (w ! i) s) (state_of r) [0..<80] \<and>
   rnd f k msg (a, b, c, d, e) = (e + f b c d + msg + k + u32_rol a 5, a, u32_rol b 30, c, d) \<and>
   round_f i b c d =
     (if i < 20 then (b AND c) OR (NOT b AND d)
      else if i < 40 then b XOR c XOR d
      else if i < 60 then (b AND c) OR (b AND d) OR (c AND d)
      else b XOR c XOR d) \<and>
   round_k i =
     (if i < 20 then 0x5A827999 else if i < 40 then 0x6ED9EBA1
      else if i < 60 then 0x8F1BBCDC else 0xCA62C1D6) \<and>
   u32_select b c d = (b AND c) OR (NOT b AND d) \<and>
   u32_select (b XOR c) d c = (b AND c) OR (b AND d) OR (c AND d) \<and>
   generic_sha1_transform s mem p 1 =
     (case schedule mem p of
        None \<Rightarrow> None
      | Some w \<Rightarrow> Some (add5 s (state_of (rounds80 w (regs_of s)))))"
proof -
  have 1: "state_of (rounds80 w r) =
     foldl (\<lambda>s i. rnd (round_f i) (round_k i) (w ! i) s) (state_of r) [0..<80]"
    by (simp add: rounds80_eq state_of_regs_of rounds_spec_def round_spec_def [abs_def])
  have 2: "rnd f k msg (a, b, c, d, e) =
     (e + f b c d + msg + k + u32_rol a 5, a, u32_rol b 30, c, d)"
    by (simp add: rnd_def)
  have 3: "round_f i b c d =
     (if i < 20 then (b AND c) OR (NOT b AND d)
      else if i < 40 then b XOR c XOR d
      else if i < 60 then (b AND c) OR (b AND d) OR (c AND d)
      else b XOR c XOR d)"
    by (simp add: round_f_def f_ch_def f_parity_def f_maj_def)
  have 4: "round_k i =
     (if i < 20 then 0x5A827999 else if i < 40 then 0x6ED9EBA1
      else if i < 60 then 0x8F1BBCDC else 0xCA62C1D6)"
    by (simp add: round_k_def)
  have 5: "u32_select b c d = (b AND c) OR (NOT b AND d)"
    by (simp add: u32_select_def)
  have 6: "u32_select (b XOR c) d c = (b AND c) OR (b AND d) OR (c AND d)"
    by (simp add: select_maj f_maj_def)
  have 7: "generic_sha1_transform s mem p 1 =
     (case schedule mem p of
        None \<Rightarrow> None
      | Some w \<Rightarrow> Some (add5 s (state_of (rounds80 w (regs_of s)))))"
    by (simp add: transform_one schedule_eq compress_def rounds80_eq state_of_regs_of)
  from 1 2 3 4 5 6 7 show ?thesis by (intro conjI)
qed

text \<open>
  C3: for a block inside the buffer the schedule has 80 words, the first 16 are the words
  of the block loaded big-endian, every later word is
  \<open>rotate_left(w[i-3] xor w[i-8] xor w[i-14] xor w[i-16], 1)\<close>, and the loop unrolled
  eight times gives the array of the recurrence taken one word at a time.
\<close>

theorem schedule_recurrence:
  assumes "has_block mem p"
  shows "\<exists>w. schedule mem p = Some w \<and> length w = 80 \<and>
           (\<forall>i<16. w ! i = be32 (mem ! (nat p + 4 * i)) (mem ! (nat p + 4 * i + 1))
                                 (mem ! (nat p + 4 * i + 2)) (mem ! (nat p + 4 * i + 3))) \<and>
           (\<forall>i. 16 \<le> i \<and> i < 80 \<longrightarrow>
              w ! i = u32_rol (w ! (i - 3) XOR w ! (i - 8) XOR w ! (i - 14) XOR w ! (i - 16)) 1) \<and>
           w = foldl w_step (block_words mem (nat p) @ replicate 64 0) [16..<80]"
proof -
  let ?m = "block_words mem (nat p) @ replicate 64 0"
  have len: "length ?m = 80" by (simp add: block_words_def)
  have "schedule mem p = Some (schedule_spec ?m)"
    using assms by (simp add: schedule_eq)
  moreover have "length (schedule_spec ?m) = 80"
    by (rule schedule_spec_props(1) [OF len])
  moreover have "schedule_spec ?m ! i = be32 (mem ! (nat p + 4 * i)) (mem ! (nat p + 4 * i + 1))
                                 (mem ! (nat p + 4 * i + 2)) (mem ! (nat p + 4 * i + 3))"
    if "i < 16" for i
    using schedule_spec_props(2) [OF len that] that
    by (simp add: nth_append block_words_def word_at_def)
  moreover have "schedule_spec ?m ! i =
      u32_rol (schedule_spec ?m ! (i - 3) XOR schedule_spec ?m ! (i - 8) XOR
               schedule_spec ?m ! (i - 14) XOR schedule_spec ?m ! (i - 16)) 1"
    if "16 \<le> i \<and> i < 80" for i
    using schedule_spec_props(3) [OF len, of i] that by (simp add: sched_ok_def)
  moreover have "schedule_spec ?m = foldl w_step ?m [16..<80]"
    by (simp only: schedule_spec_def)
  ultimately show ?thesis by blast
qed

theorem schedule_recurrence_witness:
  "has_block (replicate 64 0) 0 \<and>
   (\<exists>w. schedule (replicate 64 0) 0 = Some w \<and> length w = 80 \<and>
        w ! 5 = be32 (replicate 64 0 ! 20) (replicate 64 0 ! 21) (replicate 64 0 ! 22)
                     (replicate 64 0 ! 23) \<and>
        w ! 16 = u32_rol (w ! 13 XOR w ! 8 XOR w ! 2 XOR w ! 0) 1)"
proof -
  have h: "has_block (replicate 64 0) 0" by (simp add: has_block_def)
  from schedule_recurrence [OF h] obtain w where
    w: "schedule (replicate 64 0) 0 = Some w" "length w = 80"
      "\<forall>i<16. w ! i = be32 (replicate 64 0 ! (nat 0 + 4 * i)) (replicate 64 0 ! (nat 0 + 4 * i + 1))
                                 (replicate 64 0 ! (nat 0 + 4 * i + 2)) (replicate 64 0 ! (nat 0 + 4 * i + 3))"
      "\<forall>i. 16 \<le> i \<and> i < 80 \<longrightarrow>
              w ! i = u32_rol (w ! (i - 3) XOR w ! (i - 8) XOR w ! (i - 14) XOR w ! (i - 16)) 1"
    by blast
  from w(3) have "w ! 5 = be32 (replicate 64 0 ! (nat 0 + 4 * 5)) (replicate 64 0 ! (nat 0 + 4 * 5 + 1))
                                 (replicate 64 0 ! (nat 0 + 4 * 5 + 2)) (replicate 64 0 ! (nat 0 + 4 * 5 + 3))"
    by (rule allE [of _ 5]) simp
  then have a: "w ! 5 = be32 (replicate 64 0 ! 20) (replicate 64 0 ! 21) (replicate 64 0 ! 22)
                     (replicate 64 0 ! 23)" by simp
  from w(4) have "16 \<le> (16::nat) \<and> (16::nat) < 80 \<longrightarrow>
     w ! 16 = u32_rol (w ! (16 - 3) XOR w ! (16 - 8) XOR w ! (16 - 14) XOR w ! (16 - 16)) 1"
    by (rule allE [of _ 16])
  then have b: "w ! 16 = u32_rol (w ! 13 XOR w ! 8 XOR w ! 2 XOR w ! 0) 1" by simp
  from h w(1,2) a b show ?thesis by blast
qed

text \<open>
  C7: from any state and for any counts \<open>m, n \<ge> 0\<close>, one call of the generic transform
  with \<open>m + n\<close> blocks gives what a call with the first \<open>m\<close> blocks followed by a call
  on its result with the next \<open>n\<close> blocks gives; a call with \<open>m\<close> blocks is \<open>m\<close> calls
  with one block each, in input order; and a call with one block adds the registers after
  the 80 rounds to the state it started from.
\<close>

theorem transform_multi_block:
  assumes "0 \<le> m" "0 \<le> n"
  shows "generic_sha1_transform s mem p (m + n) =
           (case generic_sha1_transform s mem p m of
              None \<Rightarrow> None
            | Some s' \<Rightarrow> generic_sha1_transform s' mem (p + 64 * m) n) \<and>
         generic_sha1_transform s mem p m = one_at_a_time (nat m) s mem p \<and>
         generic_sha1_transform s mem p 1 =
           (case schedule mem p of
              None \<Rightarrow> None
            | Some w \<Rightarrow> Some (add5 s (state_of (rounds80 w (regs_of s)))))"
proof -
  from assms obtain k j where m: "m = int k" and n: "n = int j"
    using nonneg_int_cases by metis
  have "generic_sha1_transform s mem p (m + n) =
           (case generic_sha1_transform s mem p m of
              None \<Rightarrow> None
            | Some s' \<Rightarrow> generic_sha1_transform s' mem (p + 64 * m) n)"
    unfolding m n by (rule transform_split_nat)
  moreover have "generic_sha1_transform s mem p m = one_at_a_time (nat m) s mem p"
    unfolding m by (simp add: transform_one_at_a_time)
  moreover have "generic_sha1_transform s mem p 1 =
           (case schedule mem p of
              None \<Rightarrow> None
            | Some w \<Rightarrow> Some (add5 s (state_of (rounds80 w (regs_of s)))))"
    by (simp add: transform_one schedule_eq compress_def rounds80_eq state_of_regs_of)
  ultimately show ?thesis by (intro conjI)
qed

theorem transform_multi_block_witness:
  "(0::int) \<le> 1 \<and> (0::int) \<le> 2 \<and>
   generic_sha1_transform IV (replicate 192 0) 0 (1 + 2) =
     (case generic_sha1_transform IV (replicate 192 0) 0 1 of
        None \<Rightarrow> None
      | Some s' \<Rightarrow> generic_sha1_transform s' (replicate 192 0) (0 + 64 * 1) 2)"
proof -
  have a: "(0::int) \<le> 1" and b: "(0::int) \<le> 2" by simp_all
  from transform_multi_block [OF a b, of IV "replicate 192 0" 0] a b
  show ?thesis by blast
qed

text \<open>
  C9: when the buffer holds \<open>block_count * 64\<close> bytes, no read of the generic transform
  falls outside it: the call has a result, and bytes that follow the blocks do not
  change it.
\<close>

theorem transform_reads_in_bounds:
  assumes "length data = nat blocks * 64"
  shows "(\<exists>s'. generic_sha1_transform s data 0 blocks = Some s') \<and>
         generic_sha1_transform s (data @ rest) 0 blocks = generic_sha1_transform s data 0 blocks"
proof (cases "0 \<le> blocks")
  case True
  then obtain k where k: "blocks = int k" using nonneg_int_cases by metis
  with assms have len: "nat 0 + 64 * k \<le> length data" by simp
  have "generic_sha1_transform s data 0 (int k) \<noteq> None"
    by (rule transform_in_bounds [OF _ len]) simp
  moreover have "generic_sha1_transform s (data @ rest) 0 (int k) =
                 generic_sha1_transform s data 0 (int k)"
    by (rule transform_append [OF _ len]) simp
  ultimately show ?thesis unfolding k by auto
next
  case False
  then have "generic_sha1_transform s data 0 blocks = Some s"
    and "generic_sha1_transform s (data @ rest) 0 blocks = Some s"
    by (simp_all add: transform_nonpos)
  then show ?thesis by (intro conjI exI [of _ s]) simp_all
qed

theorem transform_reads_in_bounds_witness:
  "length (replicate 128 (0::u8)) = nat 2 * 64 \<and>
   (\<exists>s'. generic_sha1_transform IV (replicate 128 0) 0 2 = Some s') \<and>
   generic_sha1_transform IV (replicate 128 0 @ [1, 2, 3]) 0 2 =
     generic_sha1_transform IV (replicate 128 0) 0 2"
proof -
  have a: "length (replicate 128 (0::u8)) = nat 2 * 64" by simp
  from transform_reads_in_bounds [OF a, of IV "[1, 2, 3]"] a show ?thesis by blast
qed

text \<open>
  C10: a call of the generic transform with a block count of 0 returns the state it was
  given; so for a buffer of fewer than 64 bytes the count \<open>sha1\<close> computes is 0, its
  first call of the transform leaves the initial state as it is, and the digest state is
  the finalization of the whole buffer from the initial state.
\<close>

theorem transform_zero_blocks:
  "generic_sha1_transform s mem p 0 = Some s \<and>
   (length memory < 64 \<longrightarrow> length stack = 64 \<longrightarrow>
      sint ((ucast (of_nat (length memory) :: u64) :: u32) div 64) = 0 \<and>
      generic_sha1_transform IV memory 0
        (sint ((ucast (of_nat (length memory) :: u64) :: u32) div 64)) = Some IV \<and>
      sha1_state (enter stack memory) =
        map_option (\<lambda>(blk, s). (enter blk memory, s))
          (finalize IV memory (of_nat (length memory) * 8)))"
proof (intro conjI impI)
  show "generic_sha1_transform s mem p 0 = Some s"
    by (simp add: transform_nonpos)
next
  assume short: "length memory < 64" and stack: "length stack = 64"
  from short have L: "length memory < 2147483648" by simp
  from short have q: "length memory div 64 = 0" by simp
  show z: "sint ((ucast (of_nat (length memory) :: u64) :: u32) div 64) = 0"
    using size_facts(1) [OF L] q by simp
  show "generic_sha1_transform IV memory 0
        (sint ((ucast (of_nat (length memory) :: u64) :: u32) div 64)) = Some IV"
    unfolding z by (simp add: transform_nonpos)
  show "sha1_state (enter stack memory) =
        map_option (\<lambda>(blk, s). (enter blk memory, s))
          (finalize IV memory (of_nat (length memory) * 8))"
    using sha1_state_padded [OF L stack] q
    by (simp add: sha1_padded_def transform_nonpos)
qed

theorem transform_zero_blocks_witness:
  "length [0x61, 0x62, 0x63 :: u8] < 64 \<and> length (replicate 64 (0::u8)) = 64 \<and>
   sha1_state (enter (replicate 64 0) [0x61, 0x62, 0x63]) =
     map_option (\<lambda>(blk, s). (enter blk [0x61, 0x62, 0x63], s))
       (finalize IV [0x61, 0x62, 0x63] (of_nat (length [0x61, 0x62, 0x63 :: u8]) * 8))"
proof -
  have a: "length [0x61, 0x62, 0x63 :: u8] < 64" and b: "length (replicate 64 (0::u8)) = 64"
    by simp_all
  from transform_zero_blocks [of IV "[]" 0 "[0x61, 0x62, 0x63]" "replicate 64 0"] a b
  show ?thesis by blast
qed

section \<open>The claims about the one-shot hash\<close>

text \<open>
  C1: the digests of the empty buffer, of \<open>abc\<close> and of the 56-byte NIST message: the
  20 bytes of the returned hash, on a host of either byte order, rendered as 40 lowercase
  hexadecimal characters.
\<close>

theorem sha1_nist_vectors:
  "map_option (\<lambda>d. hex (digest_bytes le d)) (sha1 le []) =
     Some ''da39a3ee5e6b4b0d3255bfef95601890afd80709'' \<and>
   map_option (\<lambda>d. hex (digest_bytes le d)) (sha1 le (ascii ''abc'')) =
     Some ''a9993e364706816aba3e25717850c26c9cd0d89d'' \<and>
   map_option (\<lambda>d. hex (digest_bytes le d))
     (sha1 le (ascii ''abcdbcdecdefdefgefghfghighijhijkijkljklmklmnlmnomnopnopq'')) =
     Some ''84983e441c3bd26ebaae4aa1f95129e5e54670f1''"
proof (intro conjI)
  note rules = hex_def hex_digit_def be_state_bytes_def be32_bytes_def
  have "map_option (digest_bytes le) (sha1 le []) =
        Some (be_state_bytes (0xda39a3ee, 0x5e6b4b0d, 0x3255bfef, 0x95601890, 0xafd80709))"
    by (simp add: sha1_digest_padded sha1_padded_empty)
  from hex_digest [OF this]
  show "map_option (\<lambda>d. hex (digest_bytes le d)) (sha1 le []) =
     Some ''da39a3ee5e6b4b0d3255bfef95601890afd80709''"
    by (simp add: rules)
  have "length (ascii ''abc'') < 2147483648"
    by (simp add: ascii_def)
  then have "map_option (digest_bytes le) (sha1 le (ascii ''abc'')) =
        Some (be_state_bytes (0xa9993e36, 0x4706816a, 0xba3e2571, 0x7850c26c, 0x9cd0d89d))"
    by (simp add: sha1_digest_padded sha1_padded_abc)
  from hex_digest [OF this]
  show "map_option (\<lambda>d. hex (digest_bytes le d)) (sha1 le (ascii ''abc'')) =
     Some ''a9993e364706816aba3e25717850c26c9cd0d89d''"
    by (simp add: rules)
  have "length (ascii ''abcdbcdecdefdefgefghfghighijhijkijkljklmklmnlmnomnopnopq'') < 2147483648"
    by (simp add: ascii_def)
  then have "map_option (digest_bytes le) (sha1 le (ascii ''abcdbcdecdefdefgefghfghighijhijkijkljklmklmnlmnomnopnopq'')) =
        Some (be_state_bytes (0x84983e44, 0x1c3bd26e, 0xbaae4aa1, 0xf95129e5, 0xe54670f1))"
    by (simp add: sha1_digest_padded sha1_padded_nist56)
  from hex_digest [OF this]
  show "map_option (\<lambda>d. hex (digest_bytes le d)) (sha1 le (ascii ''abcdbcdecdefdefgefghfghighijhijkijkljklmklmnlmnomnopnopq'')) =
     Some ''84983e441c3bd26ebaae4aa1f95129e5e54670f1''"
    by (simp add: rules)
qed

text \<open>
  C6: the digest is encoded once, after the last transform: the hash \<open>sha1\<close> returns is
  the final state with each word byte-swapped on a little-endian host and unchanged on a
  big-endian one, so its 20 bytes in memory are the five state words big-endian on either
  host; and a buffer below \<open>2^31\<close> bytes always has a digest.
\<close>

theorem digest_encoded_once:
  "(sha1_run le h = Some (h', d) \<longrightarrow>
      (\<exists>s. sha1_state h = Some (h', s) \<and>
           d = (if le
                then (case s of (h0, h1, h2, h3, h4) \<Rightarrow>
                        (byteswap h0, byteswap h1, byteswap h2, byteswap h3, byteswap h4))
                else s) \<and>
           digest_bytes le d = be_state_bytes s \<and>
           length (digest_bytes le d) = 20)) \<and>
   map_option (\<lambda>(h', d). digest_bytes True d) (sha1_run True h) =
     map_option (\<lambda>(h', d). digest_bytes False d) (sha1_run False h) \<and>
   (length stack = 64 \<longrightarrow> length memory < 2147483648 \<longrightarrow>
      (\<exists>h' d. sha1_run le (enter stack memory) = Some (h', d)))"
proof (intro conjI impI)
  assume run: "sha1_run le h = Some (h', d)"
  then obtain s where s: "sha1_state h = Some (h', s)"
    and d: "d = (if le
                then (case s of (h0, h1, h2, h3, h4) \<Rightarrow>
                        (byteswap h0, byteswap h1, byteswap h2, byteswap h3, byteswap h4))
                else s)"
    by (cases "sha1_state h") (auto simp add: sha1_run_state)
  have b: "digest_bytes le d = be_state_bytes s"
    unfolding d by (cases le) (simp_all add: digest_bytes_be)
  then have "length (digest_bytes le d) = 20" by (simp add: length_be_state_bytes)
  with s d b show "\<exists>s. sha1_state h = Some (h', s) \<and>
           d = (if le
                then (case s of (h0, h1, h2, h3, h4) \<Rightarrow>
                        (byteswap h0, byteswap h1, byteswap h2, byteswap h3, byteswap h4))
                else s) \<and>
           digest_bytes le d = be_state_bytes s \<and>
           length (digest_bytes le d) = 20"
    by blast
next
  show "map_option (\<lambda>(h', d). digest_bytes True d) (sha1_run True h) =
     map_option (\<lambda>(h', d). digest_bytes False d) (sha1_run False h)"
    by (cases "sha1_state h") (auto simp add: sha1_run_state digest_bytes_be digest_bytes_swapped)
next
  assume stack: "length stack = 64" and L: "length memory < 2147483648"
  obtain blk s where p: "sha1_padded memory = Some (blk, s)"
    using sha1_padded_total [of memory] by (cases "sha1_padded memory") auto
  have "sha1_run le (enter stack memory) =
        Some (enter blk memory,
              if le
              then (case s of (h0, h1, h2, h3, h4) \<Rightarrow>
                      (byteswap h0, byteswap h1, byteswap h2, byteswap h3, byteswap h4))
              else s)"
    by (simp add: sha1_run_state sha1_state_padded [OF L stack] p)
  then show "\<exists>h' d. sha1_run le (enter stack memory) = Some (h', d)"
    by blast
qed

theorem digest_encoded_once_witness:
  "length (replicate 64 (0::u8)) = 64 \<and> length ([] :: u8 list) < 2147483648 \<and>
   (\<exists>h' d. sha1_run True (enter (replicate 64 0) []) = Some (h', d) \<and>
           length (digest_bytes True d) = 20)"
proof -
  have a: "length (replicate 64 (0::u8)) = 64" and b: "length ([] :: u8 list) < 2147483648"
    by simp_all
  from digest_encoded_once [of True "enter (replicate 64 0) []" _ _ "replicate 64 0" "[]"] a b
  obtain h' d where r: "sha1_run True (enter (replicate 64 0) []) = Some (h', d)"
    by blast
  with digest_encoded_once [of True "enter (replicate 64 0) []" h' d "replicate 64 0" "[]"]
  have "length (digest_bytes True d) = 20" by blast
  with a b r show ?thesis by blast
qed

text \<open>
  C8: the digest depends on the contents of the buffer only, not on what the scratch
  block holds when \<open>sha1\<close> is entered, and the buffer after the call is the buffer
  before it.
\<close>

theorem sha1_pure:
  assumes "length stack1 = 64" "length stack2 = 64"
  shows "map_option snd (sha1_run le (enter stack1 memory)) =
         map_option snd (sha1_run le (enter stack2 memory)) \<and>
         (sha1_run le h = Some (h', d) \<longrightarrow> h' Input = h Input)"
proof -
  have "map_option snd (sha1_state (enter stack1 memory)) =
        map_option snd (sha1_state (enter stack2 memory))"
    by (cases "sha1_outline memory")
      (auto simp add: sha1_state_outline [OF assms(1)] sha1_state_outline [OF assms(2)])
  then have "map_option snd (sha1_run le (enter stack1 memory)) =
         map_option snd (sha1_run le (enter stack2 memory))"
    by (cases "sha1_state (enter stack1 memory)"; cases "sha1_state (enter stack2 memory)")
       (auto simp add: sha1_run_state)
  moreover have "sha1_run le h = Some (h', d) \<longrightarrow> h' Input = h Input"
    by (auto dest: sha1_run_Input)
  ultimately show ?thesis by (intro conjI)
qed

theorem sha1_pure_witness:
  "length (replicate 64 (0::u8)) = 64 \<and> length (replicate 64 (0xFF::u8)) = 64 \<and>
   map_option snd (sha1_run True (enter (replicate 64 0) (ascii ''abc''))) =
   map_option snd (sha1_run True (enter (replicate 64 0xFF) (ascii ''abc'')))"
proof -
  have a: "length (replicate 64 (0::u8)) = 64" and b: "length (replicate 64 (0xFF::u8)) = 64"
    by simp_all
  from sha1_pure [OF a b, of True "ascii ''abc''"] a b show ?thesis by blast
qed

text \<open>
  C5 at a buffer of \<open>2^32\<close> zero bytes: the buffer has 67108864 complete blocks, the
  block count \<open>sha1\<close> computes is 0, and the state it returns is the finalization of an
  empty remainder from the initial state.
\<close>

theorem sha1_4gib_block_count:
  "length (replicate 4294967296 (0::u8)) div 64 = 67108864 \<and>
   sint ((ucast (of_nat (length (replicate 4294967296 (0::u8))) :: u64) :: u32) div 64) = 0 \<and>
   sha1_state (enter (replicate 64 0) (replicate 4294967296 0)) =
     map_option (\<lambda>(blk, s). (enter blk (replicate 4294967296 0), s))
       (finalize IV [] 0x800000000)"
proof -
  have len: "length (replicate 64 (0::u8)) = 64" by simp
  have "sha1_outline (replicate 4294967296 0) = finalize IV [] 0x800000000"
    by (simp add: sha1_outline_def Let_def transform_nonpos read_tail_def)
  then show ?thesis by (simp add: sha1_state_outline [OF len])
qed

text \<open>
  C4 at a buffer of \<open>2^32\<close> zero bytes followed by one byte 1: the trailing byte of the
  buffer is 1, and the byte \<open>sha1\<close> pads is the first byte of the buffer, 0.
\<close>

theorem sha1_4gib_tail:
  "length (replicate 4294967296 (0::u8) @ [1]) mod 64 = 1 \<and>
   drop (length (replicate 4294967296 (0::u8) @ [1]) - 1) (replicate 4294967296 (0::u8) @ [1]) = [1] \<and>
   sha1_state (enter (replicate 64 0) (replicate 4294967296 0 @ [1])) =
     map_option (\<lambda>(blk, s). (enter blk (replicate 4294967296 0 @ [1]), s))
       (finalize IV [0] 0x800000008)"
proof -
  have len: "length (replicate 64 (0::u8)) = 64" by simp
  have "sha1_outline (replicate 4294967296 0 @ [1]) = finalize IV [0] 0x800000008"
    by (simp add: sha1_outline_def Let_def transform_nonpos read_tail_def)
  then show ?thesis by (simp add: sha1_state_outline [OF len])
qed

end
